theory Spec2Isabelle
  imports Main
begin

section \<open>Exceptions and enumerations\<close>

text \<open>
  The exceptions the Python code can raise, as values.  \<open>IndecipherableLinkageError\<close>
  is the one exception class that \<^verbatim>\<open>annotations.py\<close> declares itself; the others
  are Python's built-in ones (a failed \<^verbatim>\<open>assert\<close> is \<open>AssertionError\<close>).
  A function that can raise returns \<open>error + 'a\<close>, with \<open>Inl\<close> for the exception.
\<close>

datatype error =
    AssertionError
  | IndexError
  | ValueError
  | KeyError
  | AttributeError
  | TypeError
  | IndecipherableLinkageError

text \<open>
  Modelled from the spec: the module \<^verbatim>\<open>type_enums\<close> is imported by
  \<^verbatim>\<open>annotations.py\<close> but is not among the sources.  The bearings are the five keys
  of the table in \<^verbatim>\<open>sort_by_bearing\<close>; the feature types are the five keys of
  \<^verbatim>\<open>TranscriptStatus._decoder\<close>, and \<open>OTHER_TYPE\<close> stands for any further member
  of the enumeration, which the decoder does not list.
\<close>

datatype bearing = START | END | OPEN_STATUS | CLOSE_STATUS | POINT

datatype feature_type = TRANSCRIBED | CODING | INTRON | TRANS_INTRON | ERROR | OTHER_TYPE

section \<open>Data records read by the transcript interpreter\<close>

text \<open>
  The records of \<^verbatim>\<open>annotations_orm\<close> are objects with identity: the code compares
  them with \<^verbatim>\<open>==\<close> and \<^verbatim>\<open>in\<close>, which is object identity for these
  classes.  An object is therefore named by a number, and a reference to it is that
  number.  A feature carries the attributes the interpreter reads.  The method
  \<^verbatim>\<open>pos_cmp_key()\<close> is defined in \<^verbatim>\<open>annotations_orm\<close>, which is not among the
  sources: its value is kept as a field of any linearly ordered type \<open>'k\<close>.
\<close>

record 'k feature =
  ftype :: feature_type
  bearing :: bearing
  fphase :: "int option"
  is_plus_strand :: bool
  coordinates :: nat
  pos_cmp_key :: 'k
  f_transcribed_pieces :: "nat list"

section \<open>The transcript status machine\<close>

text \<open>\<^verbatim>\<open>class TranscriptStatus\<close>: the fields set by \<^verbatim>\<open>__init__\<close>.\<close>

record TranscriptStatus =
  genic :: bool
  in_intron :: bool
  in_trans_intron :: bool
  in_translated_region :: bool
  seen_start :: bool
  seen_stop :: bool
  erroneous :: bool
  phase :: "int option"

definition init_status :: TranscriptStatus where
  "init_status = \<lparr>genic = False, in_intron = False, in_trans_intron = False,
     in_translated_region = False, seen_start = False, seen_stop = False,
     erroneous = False, phase = None\<rparr>"

text \<open>
  The keyword arguments \<^verbatim>\<open>**kwargs\<close> that \<^verbatim>\<open>update_for_feature\<close> passes on:
  \<open>None\<close> is the empty dictionary, \<open>Some p\<close> is \<^verbatim>\<open>phase=p\<close>.  A method called
  with a keyword it does not take, or without one it needs, raises \<open>TypeError\<close>.
\<close>

type_synonym kwargs = "int option option"

type_synonym status_fn = "kwargs \<Rightarrow> TranscriptStatus \<Rightarrow> error + TranscriptStatus"

definition no_kwargs :: "(TranscriptStatus \<Rightarrow> TranscriptStatus) \<Rightarrow> status_fn" where
  "no_kwargs f kw s = (case kw of None \<Rightarrow> Inr (f s) | Some p \<Rightarrow> Inl TypeError)"

definition saw_tss :: status_fn where
  "saw_tss = no_kwargs (\<lambda>s. s\<lparr>genic := True\<rparr>)"

definition saw_start :: status_fn where
  "saw_start kw s = (case kw of
       None \<Rightarrow> Inl TypeError
     | Some p \<Rightarrow> Inr (s\<lparr>seen_start := True, in_translated_region := True, phase := p\<rparr>))"

definition exit_coding :: status_fn where
  "exit_coding = no_kwargs (\<lambda>s. s\<lparr>in_translated_region := False\<rparr>)"

definition saw_stop :: "TranscriptStatus \<Rightarrow> TranscriptStatus" where
  "saw_stop s = s\<lparr>seen_stop := True, in_translated_region := False, phase := None\<rparr>"

definition saw_tts :: status_fn where
  "saw_tts = no_kwargs (\<lambda>s. s\<lparr>genic := False\<rparr>)"

definition splice_open :: status_fn where
  "splice_open = no_kwargs (\<lambda>s. s\<lparr>in_intron := True\<rparr>)"

definition splice_close :: status_fn where
  "splice_close = no_kwargs (\<lambda>s. s\<lparr>in_intron := False\<rparr>)"

definition trans_splice_open :: status_fn where
  "trans_splice_open = no_kwargs (\<lambda>s. s\<lparr>in_trans_intron := True\<rparr>)"

definition trans_splice_close :: status_fn where
  "trans_splice_close = no_kwargs (\<lambda>s. s\<lparr>in_trans_intron := False\<rparr>)"

definition error_open :: status_fn where
  "error_open = no_kwargs (\<lambda>s. s\<lparr>erroneous := True\<rparr>)"

definition error_close :: status_fn where
  "error_close = no_kwargs (\<lambda>s. s\<lparr>erroneous := False\<rparr>)"

text \<open>
  \<^verbatim>\<open>_decoder\<close>: the dictionary from feature type to attribute name, opening method
  and closing method.  A type that is not a key raises \<open>KeyError\<close>.
\<close>

fun decoder :: "feature_type \<Rightarrow> error + (string \<times> status_fn \<times> status_fn)" where
  "decoder TRANSCRIBED = Inr (''genic'', saw_tss, saw_tts)"
| "decoder CODING = Inr (''in_translated_region'', saw_start, exit_coding)"
| "decoder INTRON = Inr (''in_intron'', splice_open, splice_close)"
| "decoder TRANS_INTRON = Inr (''in_trans_intron'', trans_splice_open, trans_splice_close)"
| "decoder ERROR = Inr (''erroneous'', error_open, error_close)"
| "decoder OTHER_TYPE = Inl KeyError"

definition update_for_feature ::
  "TranscriptStatus \<Rightarrow> ('k, 'z) feature_scheme \<Rightarrow> kwargs \<Rightarrow> error + TranscriptStatus" where
  "update_for_feature s f kw =
     (case decoder (ftype f) of
        Inl e \<Rightarrow> Inl e
      | Inr (attr, fn_open, fn_close) \<Rightarrow>
          if bearing f \<in> {START, OPEN_STATUS} then fn_open kw s
          else if bearing f \<in> {END, CLOSE_STATUS} then fn_close kw s
          else Inl ValueError)"

definition is_utr :: "TranscriptStatus \<Rightarrow> bool" where
  "is_utr s \<longleftrightarrow> genic s \<and> \<not> (in_intron s \<or> in_translated_region s \<or> in_trans_intron s)"

definition is_5p_utr :: "TranscriptStatus \<Rightarrow> bool" where
  "is_5p_utr s \<longleftrightarrow> is_utr s \<and> \<not> (seen_start s \<or> seen_stop s)"

definition is_3p_utr :: "TranscriptStatus \<Rightarrow> bool" where
  "is_3p_utr s \<longleftrightarrow> is_utr s \<and> seen_stop s \<and> seen_start s"

definition is_coding :: "TranscriptStatus \<Rightarrow> bool" where
  "is_coding s \<longleftrightarrow> genic s \<and> in_translated_region s \<and> \<not> (in_intron s \<or> in_trans_intron s)"

definition is_intronic :: "TranscriptStatus \<Rightarrow> bool" where
  "is_intronic s \<longleftrightarrow> in_intron s \<and> genic s"

definition is_trans_intronic :: "TranscriptStatus \<Rightarrow> bool" where
  "is_trans_intronic s \<longleftrightarrow> in_trans_intron s \<and> genic s"

definition is_intergenic :: "TranscriptStatus \<Rightarrow> bool" where
  "is_intergenic s \<longleftrightarrow> \<not> genic s"

text \<open>
  \<^verbatim>\<open>TranscriptInterpBase.update_status\<close>: one feature of the group after the other;
  the first exception ends the loop.
\<close>

definition update_status_one ::
  "TranscriptStatus \<Rightarrow> ('k, 'z) feature_scheme \<Rightarrow> error + TranscriptStatus" where
  "update_status_one s f =
     (if ftype f = CODING \<and> bearing f = START then update_for_feature s f (Some (Some 0))
      else if ftype f = CODING \<and> bearing f = OPEN_STATUS
        then update_for_feature s f (Some (fphase f))
      else if ftype f = CODING \<and> bearing f = END
        then (case update_for_feature s f None of
                Inl e \<Rightarrow> Inl e
              | Inr s' \<Rightarrow> Inr (saw_stop s'))
      else update_for_feature s f None)"

fun update_status ::
  "TranscriptStatus \<Rightarrow> ('k, 'z) feature_scheme list \<Rightarrow> error + TranscriptStatus" where
  "update_status s [] = Inr s"
| "update_status s (f # fs) =
     (case update_status_one s f of
        Inl e \<Rightarrow> Inl e
      | Inr s' \<Rightarrow> update_status s' fs)"

text \<open>
  A synthetic feature of a given type and bearing, for replaying the machine: on the
  plus strand of region 0, at position key 0, in no piece.
\<close>

definition synthetic :: "feature_type \<Rightarrow> bearing \<Rightarrow> int option \<Rightarrow> nat feature" where
  "synthetic t b p = \<lparr>ftype = t, bearing = b, fphase = p, is_plus_strand = True,
     coordinates = 0, pos_cmp_key = 0, f_transcribed_pieces = []\<rparr>"

section \<open>The object graph read by the transcript interpreter\<close>

text \<open>
  \<^verbatim>\<open>UpDownPair\<close>: the two feature slots (either may be \<^verbatim>\<open>None\<close>) and the value of
  its \<^verbatim>\<open>pos_cmp_key()\<close>, a method of \<^verbatim>\<open>annotations_orm\<close> that is not among the
  sources and is kept as a field of any type \<open>'p\<close>.
\<close>

record 'p up_down_pair =
  upstream :: "nat option"
  downstream :: "nat option"
  pair_pos_cmp_key :: 'p

text \<open>
  The session and the objects reachable through it: the feature and pair objects by
  their number, the features of each piece (\<^verbatim>\<open>piece.features\<close>), and the answers
  of the two queries \<^verbatim>\<open>session.query(annotations_orm.UpstreamFeature).all()\<close> and
  \<^verbatim>\<open>session.query(annotations_orm.DownstreamFeature).all()\<close>.  The interpreter only
  reads them.
\<close>

record ('k, 'p) session =
  feature_obj :: "nat \<Rightarrow> 'k feature"
  pair_obj :: "nat \<Rightarrow> 'p up_down_pair"
  piece_features :: "nat \<Rightarrow> nat list"
  upstream_features :: "nat list"
  downstream_features :: "nat list"

text \<open>\<^verbatim>\<open>self.transcript.data\<close>: the pieces and the pairs a transcript owns.\<close>

record transcribed =
  transcribed_pieces :: "nat list"
  pairs :: "nat list"

section \<open>The feature stacker\<close>

text \<open>
  \<^verbatim>\<open>positional_match\<close> and \<^verbatim>\<open>bearing_match\<close> compare a feature with the previous
  one.  \<^verbatim>\<open>positional_match\<close> is also applied to pairs (in \<^verbatim>\<open>_links_list2link\<close>),
  so it takes the \<^verbatim>\<open>pos_cmp_key\<close> of its arguments as a function.
\<close>

definition positional_match :: "('a \<Rightarrow> 'b) \<Rightarrow> 'a \<Rightarrow> 'a \<Rightarrow> bool" where
  "positional_match key feature previous \<longleftrightarrow> key feature = key previous"

definition bearing_match :: "('a \<Rightarrow> bearing) \<Rightarrow> 'a \<Rightarrow> 'a \<Rightarrow> bool" where
  "bearing_match bearing_of feature previous \<longleftrightarrow> bearing_of feature = bearing_of previous"

text \<open>
  \<^verbatim>\<open>stack_matches\<close> is a generator; every caller consumes it to its end, so it is
  the list of the groups it yields.  \<open>stack_from\<close> is its \<^verbatim>\<open>for\<close> loop, with the
  loop variables \<^verbatim>\<open>prev\<close> and \<^verbatim>\<open>current\<close>; the final \<^verbatim>\<open>yield current\<close> is
  the first equation.
\<close>

fun stack_from :: "('a \<Rightarrow> 'a \<Rightarrow> bool) \<Rightarrow> 'a \<Rightarrow> 'a list \<Rightarrow> 'a list \<Rightarrow> 'a list list" where
  "stack_from match_fn prev current [] = [current]"
| "stack_from match_fn prev current (feature # ifeatures) =
     (if match_fn feature prev
      then stack_from match_fn feature (current @ [feature]) ifeatures
      else current # stack_from match_fn feature [feature] ifeatures)"

definition stack_matches :: "('a \<Rightarrow> 'a \<Rightarrow> bool) \<Rightarrow> 'a list \<Rightarrow> 'a list list" where
  "stack_matches match_fn features =
     (case features of
        [] \<Rightarrow> []
      | prev # ifeatures \<Rightarrow> stack_from match_fn prev [prev] ifeatures)"

text \<open>The table \<^verbatim>\<open>key\<close> of \<^verbatim>\<open>sort_by_bearing\<close>.\<close>

fun bearing_key :: "bearing \<Rightarrow> nat" where
  "bearing_key START = 3"
| "bearing_key OPEN_STATUS = 2"
| "bearing_key CLOSE_STATUS = 1"
| "bearing_key END = 0"
| "bearing_key POINT = 4"

text \<open>
  Python's \<^verbatim>\<open>sorted\<close> is a stable ascending sort by the key, and so is
  \<^const>\<open>sort_key\<close>.
\<close>

definition sort_by_bearing :: "('a \<Rightarrow> bearing) \<Rightarrow> 'a list \<Rightarrow> 'a list" where
  "sort_by_bearing bearing_of matches = sort_key (\<lambda>x. bearing_key (bearing_of x)) matches"

definition feature_key :: "('k, 'p) session \<Rightarrow> nat \<Rightarrow> 'k" where
  "feature_key st x = pos_cmp_key (feature_obj st x)"

definition feature_bearing :: "('k, 'p) session \<Rightarrow> nat \<Rightarrow> bearing" where
  "feature_bearing st x = bearing (feature_obj st x)"

definition full_stack_matches :: "('k, 'p) session \<Rightarrow> nat list \<Rightarrow> nat list list" where
  "full_stack_matches st features =
     concat (map (\<lambda>matches.
                    stack_matches (bearing_match (feature_bearing st))
                      (sort_by_bearing (feature_bearing st) matches))
                 (stack_matches (positional_match (feature_key st)) features))"

text \<open>
  \<^verbatim>\<open>sorted_features\<close>.  Both assertions compare every feature with
  \<^verbatim>\<open>features[0]\<close> inside a comprehension over \<^verbatim>\<open>features\<close>, so on an empty
  collection they hold without reading \<^verbatim>\<open>features[0]\<close>; the read after the sort
  is the one that raises \<open>IndexError\<close> there.
\<close>

definition agree_with_first :: "('a \<Rightarrow> 'b) \<Rightarrow> 'a list \<Rightarrow> bool" where
  "agree_with_first attr features =
     (case features of
        [] \<Rightarrow> True
      | f0 # rest \<Rightarrow> list_all (\<lambda>f. attr f = attr f0) features)"

definition sorted_features :: "('k::linorder, 'p) session \<Rightarrow> nat \<Rightarrow> error + nat list" where
  "sorted_features st piece =
     (let features = piece_features st piece in
      if \<not> agree_with_first (\<lambda>f. coordinates (feature_obj st f)) features
        then Inl AssertionError
      else if \<not> agree_with_first (\<lambda>f. is_plus_strand (feature_obj st f)) features
        then Inl AssertionError
      else
        (case sort_key (feature_key st) features of
           [] \<Rightarrow> Inl IndexError
         | f0 # rest \<Rightarrow>
             if \<not> is_plus_strand (feature_obj st f0)
             then Inr (rev (f0 # rest))
             else Inr (f0 # rest)))"

section \<open>Link resolution and the piece orderer\<close>

definition find_matching_links ::
  "('k, 'p) session \<Rightarrow> transcribed \<Rightarrow> nat list \<Rightarrow> bool \<Rightarrow> nat list" where
  "find_matching_links st t updown_candidates get_upstreams =
     concat (map (\<lambda>cand.
                    if get_upstreams
                    then filter (\<lambda>x. downstream (pair_obj st x) = Some cand) (pairs t)
                    else filter (\<lambda>x. upstream (pair_obj st x) = Some cand) (pairs t))
                 updown_candidates)"

text \<open>
  \<^verbatim>\<open>_links_list2link\<close>: the links are stacked by the position key of the pairs and
  the first link of every stack is kept.  A stack is never empty
  (lemma \<open>stack_matches_nonempty\<close>), so its first element exists.
\<close>

definition links_list2link :: "('k, 'p) session \<Rightarrow> nat list \<Rightarrow> error + nat option" where
  "links_list2link st links =
     (let stacked = stack_matches (positional_match (\<lambda>x. pair_pos_cmp_key (pair_obj st x))) links;
          collapsed = map hd stacked
      in case collapsed of
           [] \<Rightarrow> Inr None
         | [link] \<Rightarrow> Inr (Some link)
         | link # other # others \<Rightarrow> Inl IndecipherableLinkageError)"

definition get_upstream_link ::
  "('k, 'p) session \<Rightarrow> transcribed \<Rightarrow> nat \<Rightarrow> error + nat option" where
  "get_upstream_link st t current_piece =
     (let downstreams = downstream_features st;
          downstreams_current =
            filter (\<lambda>x. current_piece \<in> set (f_transcribed_pieces (feature_obj st x))) downstreams;
          links = find_matching_links st t downstreams_current True
      in links_list2link st links)"

definition get_downstream_link ::
  "('k, 'p) session \<Rightarrow> transcribed \<Rightarrow> nat \<Rightarrow> error + nat option" where
  "get_downstream_link st t current_piece =
     (let upstreams = upstream_features st;
          upstreams_current =
            filter (\<lambda>x. current_piece \<in> set (f_transcribed_pieces (feature_obj st x))) upstreams;
          links = find_matching_links st t upstreams_current False
      in links_list2link st links)"

text \<open>
  \<^verbatim>\<open>_get_one_piece_from_stream\<close>.  The stream is the slot of a pair, which may be
  \<^verbatim>\<open>None\<close>; reading \<^verbatim>\<open>transcribed_pieces\<close> of \<^verbatim>\<open>None\<close> raises
  \<open>AttributeError\<close>.
\<close>

definition get_one_piece_from_stream ::
  "('k, 'p) session \<Rightarrow> transcribed \<Rightarrow> nat option \<Rightarrow> error + nat" where
  "get_one_piece_from_stream st t stream =
     (case stream of
        None \<Rightarrow> Inl AttributeError
      | Some s \<Rightarrow>
          (let pieces = transcribed_pieces t;
               matches = filter (\<lambda>x. x \<in> set pieces) (f_transcribed_pieces (feature_obj st s))
           in case matches of
                [m] \<Rightarrow> Inr m
              | _ \<Rightarrow> Inl AssertionError))"

definition extend_by_one :: "nat list \<Rightarrow> nat \<Rightarrow> bool \<Rightarrow> nat list" where
  "extend_by_one ordered_pieces new down =
     (if down then ordered_pieces @ [new] else new # ordered_pieces)"

text \<open>
  \<^verbatim>\<open>ordered_pieces[latest_i]\<close> with \<^verbatim>\<open>latest_i\<close> equal to \<open>-1\<close> (downstream)
  or \<open>0\<close> (upstream); on an empty list either raises \<open>IndexError\<close>.
\<close>

definition latest :: "nat list \<Rightarrow> bool \<Rightarrow> error + nat" where
  "latest ordered_pieces down =
     (case ordered_pieces of
        [] \<Rightarrow> Inl IndexError
      | p # ps \<Rightarrow> Inr (if down then last ordered_pieces else p))"

text \<open>
  \<^verbatim>\<open>_extend_to_end\<close>: the \<^verbatim>\<open>while True\<close> loop.  The list is changed in place
  in the source and returned here.  \<open>down\<close> is the argument \<^verbatim>\<open>downstream\<close>; it
  chooses \<^verbatim>\<open>next_fn\<close>, \<^verbatim>\<open>latest_i\<close> and \<^verbatim>\<open>attr\<close>.  Every round adds a piece
  of the transcript that the list does not hold yet, which is why the loop ends.
\<close>

function extend_to_end ::
  "('k, 'p) session \<Rightarrow> transcribed \<Rightarrow> bool \<Rightarrow> nat list \<Rightarrow> error + nat list" where
  "extend_to_end st t down ordered_pieces =
     (case latest ordered_pieces down of
        Inl e \<Rightarrow> Inl e
      | Inr current \<Rightarrow>
          (case (if down then get_downstream_link st t current
                 else get_upstream_link st t current) of
             Inl e \<Rightarrow> Inl e
           | Inr None \<Rightarrow> Inr ordered_pieces
           | Inr (Some nextlink) \<Rightarrow>
               (case get_one_piece_from_stream st t
                       (if down then downstream (pair_obj st nextlink)
                        else upstream (pair_obj st nextlink)) of
                  Inl e \<Rightarrow> Inl e
                | Inr nextpiece \<Rightarrow>
                    if nextpiece \<in> set ordered_pieces
                    then Inl IndecipherableLinkageError
                    else extend_to_end st t down (extend_by_one ordered_pieces nextpiece down))))"
  by pat_completeness auto
termination
proof (relation "measure (\<lambda>(st, t, down, ordered_pieces).
                   card (set (transcribed_pieces t) - set ordered_pieces))")
  show "wf (measure (\<lambda>(st :: ('k, 'p) session, t, down :: bool, ordered_pieces).
                   card (set (transcribed_pieces t) - set ordered_pieces)))"
    by simp
next
  fix st :: "('k, 'p) session" and t down ordered_pieces current link_opt nextlink nextpiece
  assume found: "get_one_piece_from_stream st t
                   (if down then downstream (pair_obj st nextlink)
                    else upstream (pair_obj st nextlink)) = Inr nextpiece"
    and new: "nextpiece \<notin> set ordered_pieces"
  from found have "nextpiece \<in> set (transcribed_pieces t)"
  proof (cases "if down then downstream (pair_obj st nextlink) else upstream (pair_obj st nextlink)")
    case None
    with found show ?thesis by (simp add: get_one_piece_from_stream_def)
  next
    case (Some s)
    with found have "filter (\<lambda>x. x \<in> set (transcribed_pieces t))
                       (f_transcribed_pieces (feature_obj st s)) = [nextpiece]"
      by (simp add: get_one_piece_from_stream_def split: list.splits)
    then have "nextpiece \<in> set (filter (\<lambda>x. x \<in> set (transcribed_pieces t))
                       (f_transcribed_pieces (feature_obj st s)))"
      by simp
    then show ?thesis by simp
  qed
  with new have "set (transcribed_pieces t) - set (extend_by_one ordered_pieces nextpiece down)
               \<subset> set (transcribed_pieces t) - set ordered_pieces"
    by (auto simp: extend_by_one_def)
  then have "card (set (transcribed_pieces t) - set (extend_by_one ordered_pieces nextpiece down))
               < card (set (transcribed_pieces t) - set ordered_pieces)"
    by (intro psubset_card_mono) simp_all
  then show "((st, t, down, extend_by_one ordered_pieces nextpiece down),
              (st, t, down, ordered_pieces))
             \<in> measure (\<lambda>(st, t, down, ordered_pieces).
                   card (set (transcribed_pieces t) - set ordered_pieces))"
    by simp
qed

declare extend_to_end.simps [simp del]

text \<open>
  \<^verbatim>\<open>sort_pieces\<close>: \<^verbatim>\<open>pieces[0:1]\<close> is the first piece, or the empty list when
  the transcript has none.
\<close>

definition sort_pieces :: "('k, 'p) session \<Rightarrow> transcribed \<Rightarrow> error + nat list" where
  "sort_pieces st t =
     (let pieces = transcribed_pieces t;
          ordered_pieces = take 1 pieces
      in case extend_to_end st t True ordered_pieces of
           Inl e \<Rightarrow> Inl e
         | Inr ordered_down \<Rightarrow>
             (case extend_to_end st t False ordered_down of
                Inl e \<Rightarrow> Inl e
              | Inr ordered_both \<Rightarrow>
                  if set ordered_both = set pieces then Inr ordered_both
                  else Inl AssertionError))"

text \<open>
  One round of the loop of \<^verbatim>\<open>_extend_to_end\<close> up to its membership test: the
  link of the current piece, and the piece that the link resolves to (\<open>None\<close> when
  there is no link, which ends the loop).  \<open>walk\<close> says that a list of pieces is what
  successive rounds resolve, starting from a piece: every piece of the list is the
  \<open>next_piece\<close> of the one before.  Both serve to state where the loop goes.
\<close>

definition next_piece ::
  "('k, 'p) session \<Rightarrow> transcribed \<Rightarrow> bool \<Rightarrow> nat \<Rightarrow> error + nat option" where
  "next_piece st t down current =
     (case (if down then get_downstream_link st t current
            else get_upstream_link st t current) of
        Inl e \<Rightarrow> Inl e
      | Inr None \<Rightarrow> Inr None
      | Inr (Some nextlink) \<Rightarrow>
          (case get_one_piece_from_stream st t
                  (if down then downstream (pair_obj st nextlink)
                   else upstream (pair_obj st nextlink)) of
             Inl e \<Rightarrow> Inl e
           | Inr nextpiece \<Rightarrow> Inr (Some nextpiece)))"

fun walk :: "('k, 'p) session \<Rightarrow> transcribed \<Rightarrow> bool \<Rightarrow> nat \<Rightarrow> nat list \<Rightarrow> bool" where
  "walk st t down p [] \<longleftrightarrow> True"
| "walk st t down p (x # xs) \<longleftrightarrow> next_piece st t down p = Inr (Some x) \<and> walk st t down x xs"

section \<open>The transcript interpreter\<close>

text \<open>
  \<^verbatim>\<open>transition_5p_to_3p\<close> is a generator.  Consumed to its end it yields a list of
  steps (the group, a copy of the status after the group, the piece) and then either
  finishes (\<open>None\<close>) or raises (\<open>Some e\<close>); the steps yielded before an exception
  have been handed to the caller and are kept.
\<close>

type_synonym step = "nat list \<times> TranscriptStatus \<times> nat"

fun emit_groups ::
  "('k, 'p) session \<Rightarrow> TranscriptStatus \<Rightarrow> nat \<Rightarrow> nat list list
     \<Rightarrow> step list \<times> (error + TranscriptStatus)" where
  "emit_groups st status piece [] = ([], Inr status)"
| "emit_groups st status piece (aligned_features # later) =
     (case update_status status (map (feature_obj st) aligned_features) of
        Inl e \<Rightarrow> ([], Inl e)
      | Inr status' \<Rightarrow>
          (case emit_groups st status' piece later of
             (steps, r) \<Rightarrow> ((aligned_features, status', piece) # steps, r)))"

fun emit_pieces ::
  "('k::linorder, 'p) session \<Rightarrow> TranscriptStatus \<Rightarrow> nat list \<Rightarrow> step list \<times> error option" where
  "emit_pieces st status [] = ([], None)"
| "emit_pieces st status (piece # later) =
     (case sorted_features st piece of
        Inl e \<Rightarrow> ([], Some e)
      | Inr sorted_fs \<Rightarrow>
          (case emit_groups st status piece (full_stack_matches st sorted_fs) of
             (steps, Inl e) \<Rightarrow> (steps, Some e)
           | (steps, Inr status') \<Rightarrow>
               (case emit_pieces st status' later of
                  (steps', r) \<Rightarrow> (steps @ steps', r))))"

definition transition_5p_to_3p ::
  "('k::linorder, 'p) session \<Rightarrow> transcribed \<Rightarrow> step list \<times> error option" where
  "transition_5p_to_3p st t =
     (case sort_pieces st t of
        Inl e \<Rightarrow> ([], Some e)
      | Inr pieces \<Rightarrow> emit_pieces st init_status pieces)"

section \<open>Handlers and the records they wrap\<close>

text \<open>
  The concrete handler classes of \<^verbatim>\<open>annotations.py\<close>.  The base class
  \<^verbatim>\<open>Handler\<close> leaves \<^verbatim>\<open>link_to\<close>, \<^verbatim>\<open>de_link\<close> and \<^verbatim>\<open>data_type\<close>
  unimplemented and is not a member.
\<close>

datatype handler_kind =
    AnnotatedGenomeHandler
  | SequenceInfoHandler
  | SuperLocusHandler
  | TranscribedHandler
  | TranscribedPieceHandler
  | TranslatedHandler
  | FeatureHandler
  | DownstreamFeatureHandler
  | UpstreamFeatureHandler
  | UpDownPairHandler

text \<open>
  Modelled from the spec: the record classes of \<^verbatim>\<open>annotations_orm\<close>, which is not
  among the sources.  The classes are those the \<^verbatim>\<open>data_type\<close> properties name;
  \<^verbatim>\<open>UpstreamFeature\<close> and \<^verbatim>\<open>DownstreamFeature\<close> are subtypes of \<^verbatim>\<open>Feature\<close>.
\<close>

datatype data_class =
    AnnotatedGenome
  | SequenceInfo
  | SuperLocus
  | Transcribed
  | TranscribedPiece
  | Translated
  | Feature
  | DownstreamFeature
  | UpstreamFeature
  | UpDownPair

fun data_type :: "handler_kind \<Rightarrow> data_class" where
  "data_type AnnotatedGenomeHandler = AnnotatedGenome"
| "data_type SequenceInfoHandler = SequenceInfo"
| "data_type SuperLocusHandler = SuperLocus"
| "data_type TranscribedHandler = Transcribed"
| "data_type TranscribedPieceHandler = TranscribedPiece"
| "data_type TranslatedHandler = Translated"
| "data_type FeatureHandler = Feature"
| "data_type DownstreamFeatureHandler = DownstreamFeature"
| "data_type UpstreamFeatureHandler = UpstreamFeature"
| "data_type UpDownPairHandler = UpDownPair"

text \<open>
  \<^verbatim>\<open>isinstance\<close> on records and on handlers: a class is an instance of itself and
  of its base class (\<^verbatim>\<open>DownstreamFeatureHandler\<close> and \<^verbatim>\<open>UpstreamFeatureHandler\<close>
  derive from \<^verbatim>\<open>FeatureHandler\<close>).
\<close>

definition isinstance_data :: "data_class \<Rightarrow> data_class \<Rightarrow> bool" where
  "isinstance_data c of_class \<longleftrightarrow>
     c = of_class \<or> (of_class = Feature \<and> (c = DownstreamFeature \<or> c = UpstreamFeature))"

definition isinstance :: "handler_kind \<Rightarrow> handler_kind \<Rightarrow> bool" where
  "isinstance k of_class \<longleftrightarrow>
     k = of_class
     \<or> (of_class = FeatureHandler \<and> (k = DownstreamFeatureHandler \<or> k = UpstreamFeatureHandler))"

definition isinstance_any :: "handler_kind \<Rightarrow> handler_kind list \<Rightarrow> bool" where
  "isinstance_any k classes \<longleftrightarrow> list_ex (isinstance k) classes"

text \<open>
  The value of an attribute: a reference to a record or \<^verbatim>\<open>None\<close>, a relationship
  collection (a list of such references), a reference to a handler, or any other value
  (of a type \<open>'v\<close>).  A record is the dictionary of the attributes that can be read
  from it; reading an attribute it does not have raises \<open>AttributeError\<close>, writing
  one always succeeds.
\<close>

datatype 'v val =
    Ref "nat option"
  | Coll "nat option list"
  | HandlerRef nat
  | Scalar 'v

text \<open>
  \<^verbatim>\<open>Handler.__init__\<close>: \<^verbatim>\<open>data\<close> (\<open>None\<close> until \<^verbatim>\<open>add_data\<close>),
  \<^verbatim>\<open>delete_me\<close>, \<^verbatim>\<open>copyable\<close> and \<^verbatim>\<open>linkable\<close>; \<open>own_attrs\<close> holds any
  further attribute that is set on the handler object itself.
\<close>

record 'v handler =
  kind :: handler_kind
  data :: "nat option"
  delete_me :: bool
  copyable :: "string list"
  linkable :: "string list"
  own_attrs :: "string \<rightharpoonup> 'v val"

text \<open>
  The objects in memory: handlers and records by their number, the class of every
  record, and \<^verbatim>\<open>type(record).__dict__.keys()\<close> for every class (a declaration of
  \<^verbatim>\<open>annotations_orm\<close>, kept as a parameter).  The operations below perform
  exactly the assignments, appends and removals that the handler code performs; what
  the object-relational mapper behind \<^verbatim>\<open>annotations_orm\<close> may do on the other
  side of a relationship is outside the sources and is not part of the model.
\<close>

record 'v world =
  handlers :: "nat \<Rightarrow> 'v handler"
  records :: "nat \<Rightarrow> (string \<rightharpoonup> 'v val)"
  class_of :: "nat \<Rightarrow> data_class"
  class_dict_keys :: "data_class \<Rightarrow> string list"

text \<open>
  The three mutations that \<^verbatim>\<open>link_to\<close> and \<^verbatim>\<open>de_link\<close> perform on
  \<^verbatim>\<open>x.data\<close>, where \<^verbatim>\<open>x.data\<close> may be \<^verbatim>\<open>None\<close> (an unbound handler):
  \<^verbatim>\<open>x.data.name = value\<close>, \<^verbatim>\<open>x.data.name.append(item)\<close> and
  \<^verbatim>\<open>x.data.name.remove(item)\<close>.  \<^verbatim>\<open>list.remove\<close> deletes the first occurrence and
  raises \<open>ValueError\<close> when there is none.
\<close>

definition assign :: "'v world \<Rightarrow> nat option \<Rightarrow> string \<Rightarrow> 'v val \<Rightarrow> error + 'v world" where
  "assign w target name v =
     (case target of
        None \<Rightarrow> Inl AttributeError
      | Some r \<Rightarrow> Inr (w\<lparr>records := (records w)(r := (records w r)(name \<mapsto> v))\<rparr>))"

definition append_to :: "'v world \<Rightarrow> nat option \<Rightarrow> string \<Rightarrow> nat option \<Rightarrow> error + 'v world" where
  "append_to w target name item =
     (case target of
        None \<Rightarrow> Inl AttributeError
      | Some r \<Rightarrow>
          (case records w r name of
             Some (Coll xs) \<Rightarrow> assign w target name (Coll (xs @ [item]))
           | _ \<Rightarrow> Inl AttributeError))"

definition remove_from :: "'v world \<Rightarrow> nat option \<Rightarrow> string \<Rightarrow> nat option \<Rightarrow> error + 'v world" where
  "remove_from w target name item =
     (case target of
        None \<Rightarrow> Inl AttributeError
      | Some r \<Rightarrow>
          (case records w r name of
             Some (Coll xs) \<Rightarrow>
               if item \<in> set xs then assign w target name (Coll (remove1 item xs))
               else Inl ValueError
           | _ \<Rightarrow> Inl AttributeError))"

text \<open>\<^verbatim>\<open>other.name = value\<close>, on the handler object itself.\<close>

definition assign_handler :: "'v world \<Rightarrow> nat \<Rightarrow> string \<Rightarrow> 'v val \<Rightarrow> 'v world" where
  "assign_handler w h name v =
     w\<lparr>handlers := (handlers w)(h := (handlers w h)\<lparr>own_attrs := (own_attrs (handlers w h))(name \<mapsto> v)\<rparr>)\<rparr>"

text \<open>
  \<^verbatim>\<open>add_data\<close>: the assertion on the class of the record, then the two
  assignments.  The argument is a record.
\<close>

definition add_data :: "'v world \<Rightarrow> nat \<Rightarrow> nat \<Rightarrow> error + 'v world" where
  "add_data w self d =
     (if \<not> isinstance_data (class_of w d) (data_type (kind (handlers w self)))
      then Inl AssertionError
      else Inr (w\<lparr>handlers := (handlers w)(self := (handlers w self)\<lparr>data := Some d\<rparr>),
                  records := (records w)(d := (records w d)(''handler'' \<mapsto> HandlerRef self))\<rparr>))"

text \<open>
  \<^verbatim>\<open>link_to\<close> of \<^verbatim>\<open>FeatureHandler\<close>, which the two feature subclasses call
  through \<^verbatim>\<open>super()\<close>.  Its only \<open>ValueError\<close> is the one of the last branch.
\<close>

definition feature_link_to :: "'v world \<Rightarrow> 'v handler \<Rightarrow> 'v handler \<Rightarrow> error + 'v world" where
  "feature_link_to w self other =
     (if isinstance (kind other) SuperLocusHandler
        then assign w (data self) ''super_locus'' (Ref (data other))
      else if isinstance_any (kind other) [TranslatedHandler, TranscribedPieceHandler]
        then append_to w (data other) ''features'' (data self)
      else Inl ValueError)"

text \<open>
  \<^verbatim>\<open>link_to\<close>, one case per class.  \<open>a\<close> and \<open>b\<close> are the numbers of the
  handlers \<^verbatim>\<open>self\<close> and \<^verbatim>\<open>other\<close>.  \<^verbatim>\<open>_link_value_error\<close> is \<open>ValueError\<close>.  In the two
  feature subclasses the \<^verbatim>\<open>except ValueError\<close> branch assigns to
  \<^verbatim>\<open>other.downstream\<close> (\<^verbatim>\<open>other.upstream\<close>), an attribute of the handler, not of
  its record.
\<close>

definition link_to :: "'v world \<Rightarrow> nat \<Rightarrow> nat \<Rightarrow> error + 'v world" where
  "link_to w a b =
     (let self = handlers w a; other = handlers w b in
      case kind self of
        AnnotatedGenomeHandler \<Rightarrow>
          if isinstance (kind other) SequenceInfoHandler
            then assign w (data other) ''annotated_genome'' (Ref (data self))
          else Inl ValueError
      | SequenceInfoHandler \<Rightarrow>
          if isinstance (kind other) AnnotatedGenomeHandler
            then assign w (data self) ''annotated_genome'' (Ref (data other))
          else if isinstance (kind other) SuperLocusHandler
            then assign w (data other) ''sequence_info'' (Ref (data self))
          else Inl ValueError
      | SuperLocusHandler \<Rightarrow>
          if isinstance (kind other) SequenceInfoHandler
            then assign w (data self) ''sequence_info'' (Ref (data other))
          else if isinstance_any (kind other) [TranscribedHandler, TranslatedHandler, FeatureHandler]
            then assign w (data other) ''super_locus'' (Ref (data self))
          else Inl ValueError
      | TranscribedHandler \<Rightarrow>
          if isinstance (kind other) SuperLocusHandler
            then assign w (data self) ''super_locus'' (Ref (data other))
          else if isinstance_any (kind other) [UpDownPairHandler, TranscribedPieceHandler]
            then assign w (data other) ''transcribed'' (Ref (data self))
          else if isinstance_any (kind other) [TranslatedHandler]
            then append_to w (data other) ''transcribeds'' (data self)
          else Inl ValueError
      | TranscribedPieceHandler \<Rightarrow>
          if isinstance (kind other) SuperLocusHandler
            then assign w (data self) ''super_locus'' (Ref (data other))
          else if isinstance_any (kind other) [TranscribedHandler, FeatureHandler]
            then append_to w (data other) ''transcribed_pieces'' (data self)
          else Inl ValueError
      | TranslatedHandler \<Rightarrow>
          if isinstance (kind other) SuperLocusHandler
            then assign w (data self) ''super_locus'' (Ref (data other))
          else if isinstance_any (kind other) [TranscribedHandler, FeatureHandler]
            then append_to w (data other) ''translateds'' (data self)
          else Inl ValueError
      | FeatureHandler \<Rightarrow> feature_link_to w self other
      | DownstreamFeatureHandler \<Rightarrow>
          (case feature_link_to w self other of
             Inl ValueError \<Rightarrow>
               if isinstance (kind other) UpDownPairHandler
                 then Inr (assign_handler w b ''downstream'' (Ref (data self)))
               else Inl ValueError
           | result \<Rightarrow> result)
      | UpstreamFeatureHandler \<Rightarrow>
          (case feature_link_to w self other of
             Inl ValueError \<Rightarrow>
               if isinstance (kind other) UpDownPairHandler
                 then Inr (assign_handler w b ''upstream'' (Ref (data self)))
               else Inl ValueError
           | result \<Rightarrow> result)
      | UpDownPairHandler \<Rightarrow>
          if isinstance_any (kind other)
               [TranscribedHandler, DownstreamFeatureHandler, UpstreamFeatureHandler]
            then append_to w (data other) ''pairs'' (data self)
          else Inl ValueError)"

text \<open>
  \<^verbatim>\<open>de_link\<close>, one case per class; where the source tests
  \<^verbatim>\<open>self._valid_links\<close> the list of that class is written out.
\<close>

definition de_link :: "'v world \<Rightarrow> nat \<Rightarrow> nat \<Rightarrow> error + 'v world" where
  "de_link w a b =
     (let self = handlers w a; other = handlers w b in
      case kind self of
        AnnotatedGenomeHandler \<Rightarrow>
          if isinstance (kind other) SequenceInfoHandler
            then remove_from w (data self) ''sequence_infos'' (data other)
          else Inl ValueError
      | SequenceInfoHandler \<Rightarrow>
          if isinstance (kind other) AnnotatedGenomeHandler
            then remove_from w (data other) ''sequence_infos'' (data self)
          else if isinstance (kind other) SuperLocusHandler
            then remove_from w (data self) ''super_loci'' (data other)
          else Inl ValueError
      | SuperLocusHandler \<Rightarrow>
          if isinstance (kind other) SequenceInfoHandler
            then remove_from w (data other) ''super_loci'' (data self)
          else if isinstance_any (kind other) [TranscribedHandler, TranslatedHandler, FeatureHandler]
            then assign w (data other) ''super_locus'' (Ref None)
          else Inl ValueError
      | TranscribedHandler \<Rightarrow>
          if isinstance (kind other) UpDownPairHandler
            then assign w (data other) ''transcribed'' (Ref None)
          else if isinstance_any (kind other)
                    [TranslatedHandler, SuperLocusHandler, TranscribedPieceHandler, UpDownPairHandler]
            then remove_from w (data other) ''transcribeds'' (data self)
          else Inl ValueError
      | TranscribedPieceHandler \<Rightarrow>
          if isinstance_any (kind other) [TranscribedHandler, SuperLocusHandler, FeatureHandler]
            then remove_from w (data other) ''transcribed_pieces'' (data self)
          else Inl ValueError
      | TranslatedHandler \<Rightarrow>
          if isinstance_any (kind other) [TranscribedHandler, SuperLocusHandler, FeatureHandler]
            then remove_from w (data other) ''translateds'' (data self)
          else Inl ValueError
      | FeatureHandler \<Rightarrow>
          if isinstance_any (kind other) [TranscribedPieceHandler, SuperLocusHandler, TranslatedHandler]
            then remove_from w (data other) ''features'' (data self)
          else Inl ValueError
      | DownstreamFeatureHandler \<Rightarrow>
          if isinstance_any (kind other) [TranscribedPieceHandler, SuperLocusHandler, TranslatedHandler]
            then remove_from w (data other) ''features'' (data self)
          else if isinstance (kind other) UpDownPairHandler
            then assign w (data other) ''downstream'' (Ref None)
          else Inl ValueError
      | UpstreamFeatureHandler \<Rightarrow>
          if isinstance_any (kind other) [TranscribedPieceHandler, SuperLocusHandler, TranslatedHandler]
            then remove_from w (data other) ''features'' (data self)
          else if isinstance (kind other) UpDownPairHandler
            then assign w (data other) ''upstream'' (Ref None)
          else Inl ValueError
      | UpDownPairHandler \<Rightarrow>
          if isinstance_any (kind other)
               [TranscribedHandler, DownstreamFeatureHandler, UpstreamFeatureHandler]
            then remove_from w (data other) ''pairs'' (data self)
          else Inl ValueError)"

section \<open>Copying attributes between records\<close>





text \<open>
  \<^verbatim>\<open>to_copy\<close> is a Python set, and the loop that copies visits it in an order that
  the language does not fix.  \<open>orders\<close> lists every order in which the elements of a
  list can be visited.
\<close>

fun insert_everywhere :: "'a \<Rightarrow> 'a list \<Rightarrow> 'a list list" where
  "insert_everywhere x [] = [[x]]"
| "insert_everywhere x (y # ys) = (x # y # ys) # map ((#) y) (insert_everywhere x ys)"

fun orders :: "'a list \<Rightarrow> 'a list list" where
  "orders [] = [[]]"
| "orders (x # xs) = concat (map (insert_everywhere x) (orders xs))"




section \<open>A split transcript, for concrete runs\<close>

text \<open>
  A transcript in two pieces.  Piece 2 holds a transcription start (feature 20) and
  the \<^verbatim>\<open>UpstreamFeature\<close> 12; piece 1 holds the \<^verbatim>\<open>DownstreamFeature\<close> 11 and a
  transcription end (feature 21), on another region.  Pair 0 joins them: its
  \<^verbatim>\<open>upstream\<close> slot is feature 12 and its \<^verbatim>\<open>downstream\<close> slot is feature 11.
  Position keys are numbers.  Piece 3 belongs to no transcript here: it holds a coding
  start (feature 30) and the end of an intron (feature 31) at one position.  Piece 4
  has no feature.  Pieces 5 and 6 belong to the cyclic transcript below.
\<close>

definition demo_feature :: "nat \<Rightarrow> nat feature" where
  "demo_feature i =
     (if i = 20 then \<lparr>ftype = TRANSCRIBED, bearing = START, fphase = None,
                      is_plus_strand = True, coordinates = 0, pos_cmp_key = 100,
                      f_transcribed_pieces = [2]\<rparr>
      else if i = 12 then \<lparr>ftype = TRANSCRIBED, bearing = CLOSE_STATUS, fphase = None,
                      is_plus_strand = True, coordinates = 0, pos_cmp_key = 200,
                      f_transcribed_pieces = [2]\<rparr>
      else if i = 11 then \<lparr>ftype = TRANSCRIBED, bearing = OPEN_STATUS, fphase = None,
                      is_plus_strand = False, coordinates = 1, pos_cmp_key = 900,
                      f_transcribed_pieces = [1]\<rparr>
      else if i = 30 then \<lparr>ftype = CODING, bearing = START, fphase = Some 0,
                      is_plus_strand = True, coordinates = 0, pos_cmp_key = 500,
                      f_transcribed_pieces = [3]\<rparr>
      else if i = 31 then \<lparr>ftype = INTRON, bearing = END, fphase = None,
                      is_plus_strand = True, coordinates = 0, pos_cmp_key = 500,
                      f_transcribed_pieces = [3]\<rparr>
      else if i = 50 \<or> i = 60 then \<lparr>ftype = TRANSCRIBED, bearing = CLOSE_STATUS, fphase = None,
                      is_plus_strand = True, coordinates = 2, pos_cmp_key = 300,
                      f_transcribed_pieces = [i div 10]\<rparr>
      else if i = 51 \<or> i = 61 then \<lparr>ftype = TRANSCRIBED, bearing = OPEN_STATUS, fphase = None,
                      is_plus_strand = True, coordinates = 2, pos_cmp_key = 250,
                      f_transcribed_pieces = [i div 10]\<rparr>
      else \<lparr>ftype = TRANSCRIBED, bearing = END, fphase = None,
                      is_plus_strand = False, coordinates = 1, pos_cmp_key = 700,
                      f_transcribed_pieces = [1]\<rparr>)"

definition demo_pair :: "nat \<Rightarrow> nat up_down_pair" where
  "demo_pair i =
     (if i = 10 then \<lparr>upstream = Some 50, downstream = Some 61, pair_pos_cmp_key = i\<rparr>
      else if i = 11 then \<lparr>upstream = Some 60, downstream = Some 51, pair_pos_cmp_key = i\<rparr>
      else \<lparr>upstream = Some 12, downstream = Some 11, pair_pos_cmp_key = i\<rparr>)"

definition demo_session :: "(nat, nat) session" where
  "demo_session = \<lparr>feature_obj = demo_feature, pair_obj = demo_pair,
     piece_features = (\<lambda>p. if p = 1 then [21, 11] else if p = 2 then [12, 20]
                            else if p = 3 then [30, 31]
                            else if p = 5 then [51, 50] else if p = 6 then [61, 60] else []),
     upstream_features = [12, 50, 60], downstream_features = [11, 51, 61]\<rparr>"

definition demo_transcript :: transcribed where
  "demo_transcript = \<lparr>transcribed_pieces = [1, 2], pairs = [0]\<rparr>"

text \<open>
  The same two pieces with a second pair, 1, that also names feature 11 in its
  \<^verbatim>\<open>downstream\<close> slot and feature 12 in its \<^verbatim>\<open>upstream\<close> slot (the position key
  of pair \<open>i\<close> is \<open>i\<close>, so the two pairs differ in it).
\<close>

definition ambiguous_transcript :: transcribed where
  "ambiguous_transcript = \<lparr>transcribed_pieces = [1, 2], pairs = [0, 1]\<rparr>"

text \<open>
  A transcript whose links form a cycle: pair 10 leads from piece 5 (its
  \<^verbatim>\<open>UpstreamFeature\<close> 50) to piece 6 (its \<^verbatim>\<open>DownstreamFeature\<close> 61), and pair 11
  leads from piece 6 (feature 60) back to piece 5 (feature 51).
\<close>

definition cyclic_transcript :: transcribed where
  "cyclic_transcript = \<lparr>transcribed_pieces = [5, 6], pairs = [10, 11]\<rparr>"

text \<open>
  A link set with a cycle that the orderer does not follow.  The pieces are 10, 11,
  12 and 13; feature \<open>f\<close> belongs to piece \<open>f div 10\<close>.  Pair 0 leads from piece 10
  to piece 11 (\<^verbatim>\<open>UpstreamFeature\<close> 100, \<^verbatim>\<open>DownstreamFeature\<close> 111), pair 1 from 11
  to 12 (110, 121), pair 3 from 12 to 13 (120, 131), and pair 2 from 12 back to 11
  (120, 111): pairs 1 and 2 form the cycle 11, 12, 11.  Pairs 2 and 3 have the same
  position key.
\<close>

definition collapsing_session :: "(nat, nat) session" where
  "collapsing_session =
     \<lparr>feature_obj = (\<lambda>f. \<lparr>ftype = TRANSCRIBED,
                             bearing = (if f mod 10 = 0 then CLOSE_STATUS else OPEN_STATUS),
                             fphase = None, is_plus_strand = True, coordinates = f div 10,
                             pos_cmp_key = f mod 10, f_transcribed_pieces = [f div 10]\<rparr>),
      pair_obj = (\<lambda>i. if i = 0 then \<lparr>upstream = Some 100, downstream = Some 111, pair_pos_cmp_key = 0\<rparr>
                      else if i = 1 then \<lparr>upstream = Some 110, downstream = Some 121, pair_pos_cmp_key = 1\<rparr>
                      else if i = 2 then \<lparr>upstream = Some 120, downstream = Some 111, pair_pos_cmp_key = 7\<rparr>
                      else \<lparr>upstream = Some 120, downstream = Some 131, pair_pos_cmp_key = 7\<rparr>),
      piece_features = (\<lambda>p. if p = 10 then [100] else if p = 11 then [111, 110]
                             else if p = 12 then [121, 120] else if p = 13 then [131] else []),
      upstream_features = [100, 110, 120], downstream_features = [111, 121, 131]\<rparr>"

definition collapsing_transcript :: transcribed where
  "collapsing_transcript = \<lparr>transcribed_pieces = [10, 11, 12, 13], pairs = [0, 1, 3, 2]\<rparr>"

section \<open>Handlers and records, for concrete runs\<close>

text \<open>
  Modelled from the spec: the relationship attributes of a new record of each class
  (the data model of the specification and the \<^verbatim>\<open>linkable\<close> lists of the handlers;
  the declarations are in \<^verbatim>\<open>annotations_orm\<close>, which is not among the sources).
  A collection starts empty and a single reference starts as \<^verbatim>\<open>None\<close>.
\<close>

fun relationships :: "data_class \<Rightarrow> (string \<times> string val) list" where
  "relationships AnnotatedGenome = [(''sequence_infos'', Coll [])]"
| "relationships SequenceInfo = [(''annotated_genome'', Ref None), (''super_loci'', Coll [])]"
| "relationships SuperLocus = [(''sequence_info'', Ref None), (''transcribeds'', Coll []),
     (''translateds'', Coll []), (''features'', Coll [])]"
| "relationships Transcribed = [(''super_locus'', Ref None), (''transcribed_pieces'', Coll []),
     (''translateds'', Coll []), (''pairs'', Coll [])]"
| "relationships TranscribedPiece = [(''super_locus'', Ref None), (''transcribed'', Ref None),
     (''features'', Coll [])]"
| "relationships Translated = [(''super_locus'', Ref None), (''features'', Coll []),
     (''transcribeds'', Coll [])]"
| "relationships Feature = [(''super_locus'', Ref None), (''transcribed_pieces'', Coll []),
     (''translateds'', Coll [])]"
| "relationships DownstreamFeature = [(''super_locus'', Ref None),
     (''transcribed_pieces'', Coll []), (''translateds'', Coll []), (''pairs'', Coll [])]"
| "relationships UpstreamFeature = [(''super_locus'', Ref None),
     (''transcribed_pieces'', Coll []), (''translateds'', Coll []), (''pairs'', Coll [])]"
| "relationships UpDownPair = [(''upstream'', Ref None), (''downstream'', Ref None),
     (''transcribed'', Ref None)]"

text \<open>
  Three records, each bound to a handler of the same number: the transcripts 0 and 2 and
  the transcript piece 1, none linked to anything.
\<close>

definition demo_class :: "nat \<Rightarrow> data_class" where
  "demo_class r = (if r = 1 then TranscribedPiece else Transcribed)"

definition demo_record :: "nat \<Rightarrow> (string \<rightharpoonup> string val)" where
  "demo_record r =
     map_of ([(''id'', Scalar (if r = 0 then ''100'' else if r = 1 then ''101'' else ''102'')),
              (''given_id'', Scalar (if r = 0 then ''mRNA0'' else if r = 1 then ''piece1'' else ''mRNA2'')),
              (''handler'', HandlerRef r)]
             @ relationships (demo_class r))"

definition demo_handler :: "nat \<Rightarrow> string handler" where
  "demo_handler h =
     (if h = 1
      then \<lparr>kind = TranscribedPieceHandler, data = Some h, delete_me = False,
             copyable = [''given_id''], linkable = [''super_locus'', ''features'', ''transcribed''],
             own_attrs = Map.empty\<rparr>
      else \<lparr>kind = TranscribedHandler, data = Some h, delete_me = False,
             copyable = [''given_id'', ''type''],
             linkable = [''super_locus'', ''transcribed_pieces'', ''translateds''],
             own_attrs = Map.empty\<rparr>)"

definition demo_world :: "string world" where
  "demo_world = \<lparr>handlers = demo_handler, records = demo_record, class_of = demo_class,
     class_dict_keys = (\<lambda>c. [''__tablename__'', ''id'', ''given_id'', ''handler''] @ map fst (relationships c))\<rparr>"

section \<open>Replaying the status machine\<close>

text \<open>
  C3 (amended).  Starting from the initial, intergenic status and applying one after
  the other a transcription start, a coding start of phase 0, a coding end and a
  transcription end, each as a group of its own: after the first step the status is
  genic, not intergenic, and \<^emph>\<open>is\<close> 5' UTR (no start codon has been seen yet);
  after the second it is coding; after the third it is 3' UTR; after the fourth it is
  intergenic.  The other attributes of the four features are arbitrary.
\<close>

theorem status_replay:
  "update_status init_status [f1\<lparr>ftype := TRANSCRIBED, bearing := START\<rparr>]
     = Inr (init_status\<lparr>genic := True\<rparr>)
   \<and> is_5p_utr (init_status\<lparr>genic := True\<rparr>)
   \<and> \<not> is_intergenic (init_status\<lparr>genic := True\<rparr>)
   \<and> genic (init_status\<lparr>genic := True\<rparr>)
   \<and> update_status (init_status\<lparr>genic := True\<rparr>)
         [f2\<lparr>ftype := CODING, bearing := START, fphase := Some 0\<rparr>]
     = Inr (init_status\<lparr>genic := True, in_translated_region := True,
              seen_start := True, phase := Some 0\<rparr>)
   \<and> is_coding (init_status\<lparr>genic := True, in_translated_region := True,
              seen_start := True, phase := Some 0\<rparr>)
   \<and> update_status (init_status\<lparr>genic := True, in_translated_region := True,
              seen_start := True, phase := Some 0\<rparr>)
         [f3\<lparr>ftype := CODING, bearing := END\<rparr>]
     = Inr (init_status\<lparr>genic := True, seen_start := True, seen_stop := True\<rparr>)
   \<and> is_3p_utr (init_status\<lparr>genic := True, seen_start := True, seen_stop := True\<rparr>)
   \<and> update_status (init_status\<lparr>genic := True, seen_start := True, seen_stop := True\<rparr>)
         [f4\<lparr>ftype := TRANSCRIBED, bearing := END\<rparr>]
     = Inr (init_status\<lparr>seen_start := True, seen_stop := True\<rparr>)
   \<and> is_intergenic (init_status\<lparr>seen_start := True, seen_stop := True\<rparr>)"
  by (simp add: update_status_one_def update_for_feature_def init_status_def
      saw_tss_def saw_start_def exit_coding_def saw_stop_def saw_tts_def no_kwargs_def
      is_5p_utr_def is_3p_utr_def is_utr_def is_coding_def is_intergenic_def)

text \<open>
  The claim as written says that 5' UTR is false after the first step.  On the
  synthetic transcription start the machine returns the status below, and 5' UTR
  holds there.
\<close>

theorem status_replay_counterexample:
  "update_status init_status [synthetic TRANSCRIBED START None]
     = Inr (init_status\<lparr>genic := True\<rparr>)
   \<and> is_5p_utr (init_status\<lparr>genic := True\<rparr>) \<noteq> False"
  by (simp add: update_status_one_def update_for_feature_def init_status_def synthetic_def
      saw_tss_def no_kwargs_def is_5p_utr_def is_utr_def)

section \<open>Facts about the stacker\<close>

text \<open>
  The groups of \<open>stack_matches\<close> concatenate to the input, none is empty, a group
  of a key-equality match holds one key only, and on an input that is ordered by the
  key the groups are strictly separated in that order.
\<close>

lemma concat_stack_from: "concat (stack_from m prev current rest) = current @ rest"
  by (induction rest arbitrary: prev current) auto

lemma concat_stack_matches: "concat (stack_matches m xs) = xs"
  by (cases xs) (simp_all add: stack_matches_def concat_stack_from)

lemma stack_from_nonempty: "current \<noteq> [] \<Longrightarrow> [] \<notin> set (stack_from m prev current rest)"
  by (induction rest arbitrary: prev current) auto

lemma stack_matches_nonempty: "[] \<notin> set (stack_matches m xs)"
  by (cases xs) (simp_all add: stack_matches_def stack_from_nonempty)

lemma stack_from_uniform:
  assumes mk: "\<And>a b. m a b \<longleftrightarrow> k a = k b"
  shows "\<forall>x\<in>set current. k x = k prev \<Longrightarrow> g \<in> set (stack_from m prev current rest)
    \<Longrightarrow> x \<in> set g \<Longrightarrow> y \<in> set g \<Longrightarrow> k x = k y"
proof (induction rest arbitrary: prev current)
  case Nil
  then show ?case by simp
next
  case (Cons f rest)
  have step: "m f prev \<longleftrightarrow> k f = k prev" by (rule mk)
  show ?case
  proof (cases "k f = k prev")
    case True
    with Cons.prems have "g \<in> set (stack_from m f (current @ [f]) rest)"
      by (simp add: step)
    moreover from True Cons.prems(1) have "\<forall>x\<in>set (current @ [f]). k x = k f" by simp
    ultimately show ?thesis using Cons.IH Cons.prems(3,4) by blast
  next
    case False
    with Cons.prems have "g = current \<or> g \<in> set (stack_from m f [f] rest)"
      by (simp add: step)
    then show ?thesis
    proof
      assume "g = current"
      with Cons.prems show ?thesis by simp
    next
      assume "g \<in> set (stack_from m f [f] rest)"
      moreover have "\<forall>x\<in>set [f]. k x = k f" by simp
      ultimately show ?thesis using Cons.IH Cons.prems(3,4) by blast
    qed
  qed
qed

lemma stack_matches_uniform:
  assumes mk: "\<And>a b. m a b \<longleftrightarrow> k a = k b"
    and "g \<in> set (stack_matches m xs)" and "x \<in> set g" and "y \<in> set g"
  shows "k x = k y"
proof (cases xs)
  case Nil
  with assms show ?thesis by (simp add: stack_matches_def)
next
  case (Cons p rest)
  with assms(2) have "g \<in> set (stack_from m p [p] rest)"
    by (simp add: stack_matches_def)
  moreover have "\<forall>x\<in>set [p]. k x = k p" by simp
  ultimately show ?thesis using stack_from_uniform [of m k] mk assms(3,4) by blast
qed

lemma stack_from_separated:
  assumes mk: "\<And>a b. m a b \<longleftrightarrow> k a = k b"
    and tr: "\<And>a b c. le a b \<Longrightarrow> le b c \<Longrightarrow> le a c"
    and anti: "\<And>a b. le a b \<Longrightarrow> le b a \<Longrightarrow> a = b"
  shows "sorted_wrt (\<lambda>x y. le (k x) (k y)) (prev # rest) \<Longrightarrow> \<forall>x\<in>set current. k x = k prev \<Longrightarrow>
    sorted_wrt (\<lambda>g h. \<forall>x\<in>set g. \<forall>y\<in>set h. le (k x) (k y) \<and> k x \<noteq> k y)
      (stack_from m prev current rest)"
proof (induction rest arbitrary: prev current)
  case Nil
  then show ?case by simp
next
  case (Cons f rest)
  have step: "m f prev \<longleftrightarrow> k f = k prev" by (rule mk)
  from Cons.prems(1) have sorted_tail: "sorted_wrt (\<lambda>x y. le (k x) (k y)) (f # rest)"
    and prev_le: "\<forall>y\<in>set (f # rest). le (k prev) (k y)"
    by simp_all
  show ?case
  proof (cases "k f = k prev")
    case True
    with Cons.prems(2) have "\<forall>x\<in>set (current @ [f]). k x = k f" by simp
    with sorted_tail have "sorted_wrt (\<lambda>g h. \<forall>x\<in>set g. \<forall>y\<in>set h. le (k x) (k y) \<and> k x \<noteq> k y)
      (stack_from m f (current @ [f]) rest)"
      by (rule Cons.IH)
    with True show ?thesis by (simp add: step)
  next
    case False
    have one: "\<forall>x\<in>set [f]. k x = k f" by simp
    have tail: "sorted_wrt (\<lambda>g h. \<forall>x\<in>set g. \<forall>y\<in>set h. le (k x) (k y) \<and> k x \<noteq> k y)
      (stack_from m f [f] rest)"
      using sorted_tail one by (rule Cons.IH)
    have head: "le (k x) (k y) \<and> k x \<noteq> k y"
      if "x \<in> set current" and "h \<in> set (stack_from m f [f] rest)" and "y \<in> set h"
      for x h y
    proof -
      from that(2,3) have "y \<in> set (concat (stack_from m f [f] rest))" by auto
      then have y: "y \<in> set (f # rest)" by (simp add: concat_stack_from)
      from that(1) Cons.prems(2) have kx: "k x = k prev" by simp
      from prev_le have pf: "le (k prev) (k f)" by simp
      from y sorted_tail have fy: "k f = k y \<or> le (k f) (k y)" by auto
      from prev_le y have py: "le (k prev) (k y)" by blast
      have "k prev \<noteq> k y"
      proof
        assume eq: "k prev = k y"
        from fy show False
        proof
          assume "k f = k y" with eq False show False by simp
        next
          assume "le (k f) (k y)"
          with eq have "le (k f) (k prev)" by simp
          with pf have "k prev = k f" by (rule anti)
          with False show False by simp
        qed
      qed
      with py kx show ?thesis by simp
    qed
    from False tail head show ?thesis by (auto simp: step)
  qed
qed

lemma stack_matches_separated:
  assumes mk: "\<And>a b. m a b \<longleftrightarrow> k a = k b"
    and tr: "\<And>a b c. le a b \<Longrightarrow> le b c \<Longrightarrow> le a c"
    and anti: "\<And>a b. le a b \<Longrightarrow> le b a \<Longrightarrow> a = b"
    and srt: "sorted_wrt (\<lambda>x y. le (k x) (k y)) xs"
  shows "sorted_wrt (\<lambda>g h. \<forall>x\<in>set g. \<forall>y\<in>set h. le (k x) (k y) \<and> k x \<noteq> k y)
      (stack_matches m xs)"
proof (cases xs)
  case Nil
  then show ?thesis by (simp add: stack_matches_def)
next
  case (Cons p rest)
  have one: "\<forall>x\<in>set [p]. k x = k p" by simp
  have "sorted_wrt (\<lambda>g h. \<forall>x\<in>set g. \<forall>y\<in>set h. le (k x) (k y) \<and> k x \<noteq> k y)
      (stack_from m p [p] rest)"
    using mk tr anti srt [unfolded Cons] one by (rule stack_from_separated)
  with Cons show ?thesis by (simp add: stack_matches_def)
qed

lemma sorted_wrt_concat_map:
  assumes "\<forall>xs\<in>set xss. sorted_wrt R (F xs)"
    and "sorted_wrt (\<lambda>xs ys. \<forall>g\<in>set (F xs). \<forall>h\<in>set (F ys). R g h) xss"
  shows "sorted_wrt R (concat (map F xss))"
  using assms by (induction xss) (auto simp: sorted_wrt_append)


lemma bearing_key_inj: "bearing_key a = bearing_key b \<Longrightarrow> a = b"
  by (cases a; cases b) simp_all

lemma bearing_stacks_order:
  fixes b :: "'a \<Rightarrow> bearing"
  shows "sorted_wrt (\<lambda>g h. \<forall>x\<in>set g. \<forall>y\<in>set h. bearing_key (b x) < bearing_key (b y))
     (stack_matches (bearing_match b) (sort_by_bearing b matches))"
proof -
  let ?r = "\<lambda>x. bearing_key (b x)"
  have mk: "\<And>x y. bearing_match b x y \<longleftrightarrow> ?r x = ?r y"
    by (auto simp: bearing_match_def dest: bearing_key_inj)
  have "sorted (map ?r (sort_key ?r matches))" by (rule sorted_sort_key)
  then have srt: "sorted_wrt (\<lambda>x y. ?r x \<le> ?r y) (sort_by_bearing b matches)"
    by (simp add: sort_by_bearing_def sorted_map)
  have "sorted_wrt (\<lambda>g h. \<forall>x\<in>set g. \<forall>y\<in>set h. ?r x \<le> ?r y \<and> ?r x \<noteq> ?r y)
     (stack_matches (bearing_match b) (sort_by_bearing b matches))"
    using mk _ _ srt by (rule stack_matches_separated) simp_all
  then show ?thesis
    by (rule sorted_wrt_mono_rel [rotated]) (fastforce simp: le_less)
qed

lemma bearing_stacks_members:
  "g \<in> set (stack_matches (bearing_match b) (sort_by_bearing b matches)) \<Longrightarrow> x \<in> set g
   \<Longrightarrow> x \<in> set matches"
proof -
  assume "g \<in> set (stack_matches (bearing_match b) (sort_by_bearing b matches))" and "x \<in> set g"
  then have "x \<in> set (concat (stack_matches (bearing_match b) (sort_by_bearing b matches)))"
    by auto
  then show ?thesis by (simp add: concat_stack_matches sort_by_bearing_def)
qed

lemma full_stack_matches_order:
  fixes st :: "('k, 'p) session"
  assumes tr: "\<And>a b c. le a b \<Longrightarrow> le b c \<Longrightarrow> le a c"
    and anti: "\<And>a b. le a b \<Longrightarrow> le b a \<Longrightarrow> a = b"
    and refl: "\<And>a. le a a"
    and srt: "sorted_wrt (\<lambda>x y. le (feature_key st x) (feature_key st y)) fs"
  shows "sorted_wrt (\<lambda>g h. \<forall>x\<in>set g. \<forall>y\<in>set h.
            le (feature_key st x) (feature_key st y)
            \<and> (feature_key st x = feature_key st y
                 \<longrightarrow> bearing_key (feature_bearing st x) < bearing_key (feature_bearing st y)))
          (full_stack_matches st fs)"
proof -
  let ?k = "feature_key st" and ?b = "feature_bearing st"
  let ?F = "\<lambda>matches. stack_matches (bearing_match ?b) (sort_by_bearing ?b matches)"
  let ?R = "\<lambda>g h. \<forall>x\<in>set g. \<forall>y\<in>set h. le (?k x) (?k y)
              \<and> (?k x = ?k y \<longrightarrow> bearing_key (?b x) < bearing_key (?b y))"
  let ?pgs = "stack_matches (positional_match ?k) fs"
  have mk: "\<And>x y. positional_match ?k x y \<longleftrightarrow> ?k x = ?k y"
    by (simp add: positional_match_def)
  have within: "sorted_wrt ?R (?F pg)" if "pg \<in> set ?pgs" for pg
  proof -
    have same: "?k x = ?k y" if "x \<in> set pg" "y \<in> set pg" for x y
      using mk \<open>pg \<in> set ?pgs\<close> that by (rule stack_matches_uniform)
    have "sorted_wrt (\<lambda>g h. \<forall>x\<in>set g. \<forall>y\<in>set h. bearing_key (?b x) < bearing_key (?b y)) (?F pg)"
      by (rule bearing_stacks_order)
    then show ?thesis
    proof (rule sorted_wrt_mono_rel [rotated])
      fix g h assume g: "g \<in> set (?F pg)" and h: "h \<in> set (?F pg)"
        and lt: "\<forall>x\<in>set g. \<forall>y\<in>set h. bearing_key (?b x) < bearing_key (?b y)"
      show "?R g h"
      proof (intro ballI conjI impI)
        fix x y assume x: "x \<in> set g" and y: "y \<in> set h"
        from g x have "x \<in> set pg" by (rule bearing_stacks_members)
        moreover from h y have "y \<in> set pg" by (rule bearing_stacks_members)
        ultimately have "?k x = ?k y" by (rule same)
        then show "le (?k x) (?k y)" by (simp add: refl)
        from lt x y show "bearing_key (?b x) < bearing_key (?b y)" by blast
      qed
    qed
  qed
  have sep: "sorted_wrt (\<lambda>g h. \<forall>x\<in>set g. \<forall>y\<in>set h. le (?k x) (?k y) \<and> ?k x \<noteq> ?k y) ?pgs"
    using mk tr anti srt by (rule stack_matches_separated)
  have across: "sorted_wrt (\<lambda>pg pg'. \<forall>g\<in>set (?F pg). \<forall>h\<in>set (?F pg'). ?R g h) ?pgs"
    using sep
  proof (rule sorted_wrt_mono_rel [rotated])
    fix pg pg' assume d: "\<forall>x\<in>set pg. \<forall>y\<in>set pg'. le (?k x) (?k y) \<and> ?k x \<noteq> ?k y"
    show "\<forall>g\<in>set (?F pg). \<forall>h\<in>set (?F pg'). ?R g h"
    proof (intro ballI)
      fix g h x y assume "g \<in> set (?F pg)" "h \<in> set (?F pg')" "x \<in> set g" "y \<in> set h"
      then have "x \<in> set pg" "y \<in> set pg'" by (auto dest: bearing_stacks_members)
      with d show "le (?k x) (?k y)
              \<and> (?k x = ?k y \<longrightarrow> bearing_key (?b x) < bearing_key (?b y))" by blast
    qed
  qed
  from within across have "sorted_wrt ?R (concat (map ?F ?pgs))"
    by (intro sorted_wrt_concat_map) blast+
  then show ?thesis by (simp add: full_stack_matches_def)
qed

lemma full_stack_matches_groups:
  assumes "g \<in> set (full_stack_matches st fs)"
  shows "g \<noteq> [] \<and> (\<forall>x\<in>set g. \<forall>y\<in>set g.
           feature_key st x = feature_key st y \<and> feature_bearing st x = feature_bearing st y)"
proof -
  let ?k = "feature_key st" and ?b = "feature_bearing st"
  from assms obtain pg where pg: "pg \<in> set (stack_matches (positional_match ?k) fs)"
    and g: "g \<in> set (stack_matches (bearing_match ?b) (sort_by_bearing ?b pg))"
    by (auto simp: full_stack_matches_def)
  have mk: "\<And>x y. positional_match ?k x y \<longleftrightarrow> ?k x = ?k y"
    by (simp add: positional_match_def)
  have mb: "\<And>x y. bearing_match ?b x y \<longleftrightarrow> ?b x = ?b y"
    by (simp add: bearing_match_def)
  from g have "g \<noteq> []" using stack_matches_nonempty by metis
  moreover have "?k x = ?k y \<and> ?b x = ?b y" if "x \<in> set g" "y \<in> set g" for x y
  proof
    from g that have "x \<in> set pg" "y \<in> set pg" by (auto dest: bearing_stacks_members)
    with mk pg show "?k x = ?k y" by (rule stack_matches_uniform)
    from mb g that show "?b x = ?b y" by (rule stack_matches_uniform)
  qed
  ultimately show ?thesis by blast
qed

lemma agree_with_first_iff:
  "agree_with_first attr fs \<longleftrightarrow> (\<forall>f\<in>set fs. \<forall>g\<in>set fs. attr f = attr g)"
  by (cases fs) (auto simp: agree_with_first_def list_all_iff)

lemma sorted_features_Inr:
  assumes "sorted_features st piece = Inr fs"
  shows "(\<forall>x\<in>set fs. \<forall>y\<in>set fs. is_plus_strand (feature_obj st x) = is_plus_strand (feature_obj st y))
     \<and> (\<forall>x\<in>set fs. \<forall>y\<in>set fs. coordinates (feature_obj st x) = coordinates (feature_obj st y))
     \<and> fs \<noteq> []
     \<and> (if is_plus_strand (feature_obj st (hd fs))
         then fs = sort_key (feature_key st) (piece_features st piece)
         else fs = rev (sort_key (feature_key st) (piece_features st piece)))"
proof -
  let ?fs = "piece_features st piece"
  let ?s = "sort_key (feature_key st) ?fs"
  from assms have a1: "agree_with_first (\<lambda>f. coordinates (feature_obj st f)) ?fs"
    and a2: "agree_with_first (\<lambda>f. is_plus_strand (feature_obj st f)) ?fs"
    by (auto simp: sorted_features_def Let_def split: if_splits)
  from assms a1 a2 have ne: "?s \<noteq> []"
    by (auto simp: sorted_features_def Let_def split: list.splits)
  from assms a1 a2 ne have fs: "fs = (if \<not> is_plus_strand (feature_obj st (hd ?s)) then rev ?s else ?s)"
    by (cases ?s) (auto simp: sorted_features_def Let_def)
  then have set: "set fs = set ?fs" by auto
  have strand: "is_plus_strand (feature_obj st x) = is_plus_strand (feature_obj st y)"
    if "x \<in> set fs" "y \<in> set fs" for x y
    using a2 that unfolding agree_with_first_iff set by blast
  have coord: "coordinates (feature_obj st x) = coordinates (feature_obj st y)"
    if "x \<in> set fs" "y \<in> set fs" for x y
    using a1 that unfolding agree_with_first_iff set by blast
  from ne fs have fne: "fs \<noteq> []" by auto
  then have "hd fs \<in> set fs" by simp
  moreover from ne have "hd ?s \<in> set fs" using set by (metis hd_in_set set_sort)
  ultimately have "is_plus_strand (feature_obj st (hd fs)) = is_plus_strand (feature_obj st (hd ?s))"
    by (rule strand)
  with fs have "if is_plus_strand (feature_obj st (hd fs)) then fs = ?s else fs = rev ?s"
    by auto
  with strand coord fne show ?thesis by blast
qed

lemma full_stack_matches_members:
  assumes "g \<in> set (full_stack_matches st fs)" and "x \<in> set g"
  shows "x \<in> set fs"
proof -
  from assms obtain pg where pg: "pg \<in> set (stack_matches (positional_match (feature_key st)) fs)"
    and g: "g \<in> set (stack_matches (bearing_match (feature_bearing st))
                        (sort_by_bearing (feature_bearing st) pg))"
    by (auto simp: full_stack_matches_def)
  from g assms(2) have "x \<in> set pg" by (rule bearing_stacks_members)
  with pg have "x \<in> set (concat (stack_matches (positional_match (feature_key st)) fs))" by auto
  then show ?thesis by (simp add: concat_stack_matches)
qed

section \<open>Facts about the interpreter's loops\<close>

lemma sorted_features_Inr_nonempty:
  assumes "sorted_features st piece = Inr fs"
  shows "piece_features st piece \<noteq> []"
proof
  assume "piece_features st piece = []"
  then have "sorted_features st piece = Inl IndexError"
    by (simp add: sorted_features_def agree_with_first_def)
  with assms show False by simp
qed

lemma emit_pieces_finished:
  "emit_pieces st status ps = (steps, None) \<Longrightarrow> p \<in> set ps \<Longrightarrow> \<exists>fs. sorted_features st p = Inr fs"
proof (induction ps arbitrary: status steps)
  case Nil
  then show ?case by simp
next
  case (Cons q ps)
  from Cons.prems(1) obtain fs where q: "sorted_features st q = Inr fs"
    by (auto split: sum.splits)
  show ?case
  proof (cases "p = q")
    case True
    with q show ?thesis by blast
  next
    case False
    with Cons.prems(2) have "p \<in> set ps" by simp
    moreover from Cons.prems(1) q obtain status' steps' where "emit_pieces st status' ps = (steps', None)"
      by (auto split: sum.splits prod.splits)
    ultimately show ?thesis using Cons.IH by blast
  qed
qed

lemma emit_groups_piece:
  "emit_groups st status piece gs = (steps, r) \<Longrightarrow> (g, s, p) \<in> set steps \<Longrightarrow> p = piece"
  by (induction gs arbitrary: status steps r) (auto split: sum.splits prod.splits)

lemma emit_pieces_step:
  "emit_pieces st status ps = (steps, r) \<Longrightarrow> (g, s, p) \<in> set steps \<Longrightarrow> \<exists>fs. sorted_features st p = Inr fs"
proof (induction ps arbitrary: status steps r)
  case Nil
  then show ?case by simp
next
  case (Cons q ps)
  from Cons.prems obtain fs where q: "sorted_features st q = Inr fs"
    by (auto split: sum.splits)
  obtain steps1 r1 where g: "emit_groups st status q (full_stack_matches st fs) = (steps1, r1)"
    by (cases "emit_groups st status q (full_stack_matches st fs)") auto
  show ?case
  proof (cases "(g, s, p) \<in> set steps1")
    case True
    with g have "p = q" by (rule emit_groups_piece)
    with q show ?thesis by blast
  next
    case False
    with Cons.prems q g obtain status' steps' r' where
      "emit_pieces st status' ps = (steps', r')" "(g, s, p) \<in> set steps'"
      by (auto split: sum.splits prod.splits)
    then show ?thesis by (rule Cons.IH)
  qed
qed

lemma sort_pieces_set:
  "sort_pieces st t = Inr ps \<Longrightarrow> set ps = set (transcribed_pieces t)"
  by (auto simp: sort_pieces_def Let_def split: sum.splits if_splits)

section \<open>Facts about link resolution and the piece orderer\<close>

text \<open>
  What \<open>links_list2link\<close> returns, by the position keys of the links; the links
  that \<open>get_downstream_link\<close> and \<open>get_upstream_link\<close> collect; and what a run of
  \<open>extend_to_end\<close> that returns has done.
\<close>

lemma stack_from_same_key:
  assumes mk: "\<And>a b. m a b \<longleftrightarrow> k a = k b"
  shows "\<forall>x\<in>set rest. k x = k prev \<Longrightarrow> stack_from m prev current rest = [current @ rest]"
proof (induction rest arbitrary: prev current)
  case Nil
  then show ?case by simp
next
  case (Cons f rest)
  have step: "m f prev \<longleftrightarrow> k f = k prev" by (rule mk)
  from Cons.prems have "\<forall>x\<in>set rest. k x = k f" by simp
  then have "stack_from m f (current @ [f]) rest = [(current @ [f]) @ rest]" by (rule Cons.IH)
  with Cons.prems show ?case by (simp add: step)
qed

lemma stack_from_not_Nil: "stack_from m prev current rest \<noteq> []"
  by (induction rest arbitrary: prev current) auto

lemma stack_from_other_key:
  assumes mk: "\<And>a b. m a b \<longleftrightarrow> k a = k b"
  shows "\<exists>x\<in>set rest. k x \<noteq> k prev \<Longrightarrow>
    \<exists>g h more. stack_from m prev current rest = g # h # more"
proof (induction rest arbitrary: prev current)
  case Nil
  then show ?case by simp
next
  case (Cons f rest)
  have step: "m f prev \<longleftrightarrow> k f = k prev" by (rule mk)
  show ?case
  proof (cases "k f = k prev")
    case True
    with Cons.prems have "\<exists>x\<in>set rest. k x \<noteq> k f" by simp
    then have "\<exists>g h more. stack_from m f (current @ [f]) rest = g # h # more" by (rule Cons.IH)
    with True show ?thesis by (simp add: step)
  next
    case False
    obtain h more where "stack_from m f [f] rest = h # more"
      using stack_from_not_Nil [of m f "[f]" rest] by (cases "stack_from m f [f] rest") auto
    with False show ?thesis by (simp add: step)
  qed
qed

lemma links_list2link_cases:
  "links_list2link st links =
     (if links = [] then Inr None
      else if \<forall>l\<in>set links. pair_pos_cmp_key (pair_obj st l) = pair_pos_cmp_key (pair_obj st (hd links))
      then Inr (Some (hd links))
      else Inl IndecipherableLinkageError)"
proof (cases links)
  case Nil
  then show ?thesis by (simp add: links_list2link_def stack_matches_def)
next
  case (Cons p rest)
  let ?k = "\<lambda>x. pair_pos_cmp_key (pair_obj st x)"
  have mk: "\<And>a b. positional_match ?k a b \<longleftrightarrow> ?k a = ?k b"
    by (simp add: positional_match_def)
  show ?thesis
  proof (cases "\<forall>x\<in>set rest. ?k x = ?k p")
    case True
    with mk have "stack_from (positional_match ?k) p [p] rest = [[p] @ rest]"
      by (rule stack_from_same_key)
    with Cons True show ?thesis
      by (simp add: links_list2link_def stack_matches_def)
  next
    case False
    then have "\<exists>x\<in>set rest. ?k x \<noteq> ?k p" by simp
    with mk have "\<exists>g h more. stack_from (positional_match ?k) p [p] rest = g # h # more"
      by (rule stack_from_other_key)
    then obtain g h more where "stack_from (positional_match ?k) p [p] rest = g # h # more"
      by blast
    with Cons False show ?thesis
      by (simp add: links_list2link_def stack_matches_def)
  qed
qed

lemma find_matching_links_iff:
  "l \<in> set (find_matching_links st t cands get_upstreams) \<longleftrightarrow>
     l \<in> set (pairs t) \<and>
     (\<exists>c\<in>set cands. (if get_upstreams then downstream (pair_obj st l) else upstream (pair_obj st l)) = Some c)"
  by (auto simp: find_matching_links_def)

lemma get_downstream_link_cases:
  "get_downstream_link st t piece =
     (let links = find_matching_links st t
            (filter (\<lambda>x. piece \<in> set (f_transcribed_pieces (feature_obj st x)))
               (upstream_features st)) False
      in if links = [] then Inr None
         else if \<forall>l\<in>set links. pair_pos_cmp_key (pair_obj st l)
                                 = pair_pos_cmp_key (pair_obj st (hd links))
         then Inr (Some (hd links))
         else Inl IndecipherableLinkageError)"
  by (simp add: get_downstream_link_def Let_def links_list2link_cases)

lemma get_upstream_link_cases:
  "get_upstream_link st t piece =
     (let links = find_matching_links st t
            (filter (\<lambda>x. piece \<in> set (f_transcribed_pieces (feature_obj st x)))
               (downstream_features st)) True
      in if links = [] then Inr None
         else if \<forall>l\<in>set links. pair_pos_cmp_key (pair_obj st l)
                                 = pair_pos_cmp_key (pair_obj st (hd links))
         then Inr (Some (hd links))
         else Inl IndecipherableLinkageError)"
  by (simp add: get_upstream_link_def Let_def links_list2link_cases)

lemma set_downstream_links:
  "set (find_matching_links st t
          (filter (\<lambda>x. piece \<in> set (f_transcribed_pieces (feature_obj st x)))
             (upstream_features st)) False)
   = {l \<in> set (pairs t). \<exists>f\<in>set (upstream_features st).
        piece \<in> set (f_transcribed_pieces (feature_obj st f)) \<and> upstream (pair_obj st l) = Some f}"
  by (auto simp: find_matching_links_iff)

lemma set_upstream_links:
  "set (find_matching_links st t
          (filter (\<lambda>x. piece \<in> set (f_transcribed_pieces (feature_obj st x)))
             (downstream_features st)) True)
   = {l \<in> set (pairs t). \<exists>f\<in>set (downstream_features st).
        piece \<in> set (f_transcribed_pieces (feature_obj st f)) \<and> downstream (pair_obj st l) = Some f}"
  by (auto simp: find_matching_links_iff)

lemma resolve_cases:
  assumes r: "r = (if links = [] then Inr None
         else if \<forall>l\<in>set links. k l = k (hd links)
         then Inr (Some (hd links))
         else Inl IndecipherableLinkageError)"
    and M: "set links = M"
  shows "(M = {} \<longrightarrow> r = Inr None)
       \<and> (\<forall>l. M = {l} \<longrightarrow> r = Inr (Some l))
       \<and> (M \<noteq> {} \<and> (\<forall>l\<in>M. \<forall>l'\<in>M. k l = k l') \<longrightarrow> (\<exists>l\<in>M. r = Inr (Some l)))
       \<and> ((\<exists>l\<in>M. \<exists>l'\<in>M. k l \<noteq> k l') \<longrightarrow> r = Inl IndecipherableLinkageError)"
proof -
  have same: "r = Inr (Some (hd links))" if "links \<noteq> []" and "\<forall>l\<in>set links. k l = k (hd links)"
  proof -
    from that(1) have "r = (if \<forall>l\<in>set links. k l = k (hd links) then Inr (Some (hd links))
         else Inl IndecipherableLinkageError)"
      unfolding r by (rule if_not_P)
    also from that(2) have "\<dots> = Inr (Some (hd links))" by (rule if_P)
    finally show ?thesis .
  qed
  have none: "r = Inr None" if "M = {}"
  proof -
    from that M have "links = []" by simp
    then show ?thesis unfolding r by (rule if_P)
  qed
  have one: "r = Inr (Some l)" if "M = {l}" for l
  proof -
    from that M have s: "set links = {l}" by simp
    then have ne: "links \<noteq> []" by auto
    then have "hd links \<in> set links" by (rule hd_in_set)
    with s have h: "hd links = l" by simp
    from s h have "\<forall>x\<in>set links. k x = k (hd links)" by simp
    with ne have "r = Inr (Some (hd links))" by (rule same)
    with h show ?thesis by simp
  qed
  have all: "\<exists>l\<in>M. r = Inr (Some l)" if ne: "M \<noteq> {}" and eq: "\<forall>l\<in>M. \<forall>l'\<in>M. k l = k l'"
  proof -
    from ne M have n: "links \<noteq> []" by auto
    then have h: "hd links \<in> M" using M hd_in_set by blast
    with eq have "\<forall>l\<in>M. k l = k (hd links)" by blast
    with M have "\<forall>l\<in>set links. k l = k (hd links)" by blast
    with n have "r = Inr (Some (hd links))" by (rule same)
    with h show ?thesis by blast
  qed
  have differ: "r = Inl IndecipherableLinkageError" if "\<exists>l\<in>M. \<exists>l'\<in>M. k l \<noteq> k l'"
  proof -
    from that obtain l l' where l: "l \<in> M" "l' \<in> M" "k l \<noteq> k l'" by blast
    with M have ne: "links \<noteq> []" by auto
    from l(3) have "k l \<noteq> k (hd links) \<or> k l' \<noteq> k (hd links)" by metis
    with l(1,2) M have "\<not> (\<forall>l\<in>set links. k l = k (hd links))" by blast
    then have "(if \<forall>l\<in>set links. k l = k (hd links) then Inr (Some (hd links))
         else Inl IndecipherableLinkageError) = Inl IndecipherableLinkageError"
      by (rule if_not_P)
    moreover from ne have "r = (if \<forall>l\<in>set links. k l = k (hd links) then Inr (Some (hd links))
         else Inl IndecipherableLinkageError)"
      unfolding r by (rule if_not_P)
    ultimately show ?thesis by (rule ssubst [rotated])
  qed
  from none one all differ show ?thesis by blast
qed

lemma down_link_none:
  assumes "\<And>l f. l \<in> set (pairs t) \<Longrightarrow> f \<in> set (upstream_features st) \<Longrightarrow>
     piece \<in> set (f_transcribed_pieces (feature_obj st f)) \<Longrightarrow> upstream (pair_obj st l) \<noteq> Some f"
  shows "get_downstream_link st t piece = Inr None"
proof -
  from assms have "{l \<in> set (pairs t). \<exists>f\<in>set (upstream_features st).
        piece \<in> set (f_transcribed_pieces (feature_obj st f)) \<and> upstream (pair_obj st l) = Some f} = {}"
    by blast
  with resolve_cases [OF get_downstream_link_cases [unfolded Let_def] set_downstream_links]
  show ?thesis by blast
qed

lemma up_link_none:
  assumes "\<And>l f. l \<in> set (pairs t) \<Longrightarrow> f \<in> set (downstream_features st) \<Longrightarrow>
     piece \<in> set (f_transcribed_pieces (feature_obj st f)) \<Longrightarrow> downstream (pair_obj st l) \<noteq> Some f"
  shows "get_upstream_link st t piece = Inr None"
proof -
  from assms have "{l \<in> set (pairs t). \<exists>f\<in>set (downstream_features st).
        piece \<in> set (f_transcribed_pieces (feature_obj st f)) \<and> downstream (pair_obj st l) = Some f} = {}"
    by blast
  with resolve_cases [OF get_upstream_link_cases [unfolded Let_def] set_upstream_links]
  show ?thesis by blast
qed

lemma down_link_one:
  assumes "pairs t = [pr]" and "upstream (pair_obj st pr) = Some f"
    and "f \<in> set (upstream_features st)" and "piece \<in> set (f_transcribed_pieces (feature_obj st f))"
  shows "get_downstream_link st t piece = Inr (Some pr)"
proof -
  from assms have "{l \<in> set (pairs t). \<exists>f\<in>set (upstream_features st).
        piece \<in> set (f_transcribed_pieces (feature_obj st f)) \<and> upstream (pair_obj st l) = Some f} = {pr}"
    by auto
  with resolve_cases [OF get_downstream_link_cases [unfolded Let_def] set_downstream_links]
  show ?thesis by blast
qed

lemma up_link_one:
  assumes "pairs t = [pr]" and "downstream (pair_obj st pr) = Some f"
    and "f \<in> set (downstream_features st)" and "piece \<in> set (f_transcribed_pieces (feature_obj st f))"
  shows "get_upstream_link st t piece = Inr (Some pr)"
proof -
  from assms have "{l \<in> set (pairs t). \<exists>f\<in>set (downstream_features st).
        piece \<in> set (f_transcribed_pieces (feature_obj st f)) \<and> downstream (pair_obj st l) = Some f} = {pr}"
    by auto
  with resolve_cases [OF get_upstream_link_cases [unfolded Let_def] set_upstream_links]
  show ?thesis by blast
qed

lemma extend_to_end_unfold:
  "extend_to_end st t down ordered =
     (case latest ordered down of
        Inl e \<Rightarrow> Inl e
      | Inr current \<Rightarrow>
          (case next_piece st t down current of
             Inl e \<Rightarrow> Inl e
           | Inr None \<Rightarrow> Inr ordered
           | Inr (Some nextpiece) \<Rightarrow>
               if nextpiece \<in> set ordered then Inl IndecipherableLinkageError
               else extend_to_end st t down (extend_by_one ordered nextpiece down)))"
  by (subst extend_to_end.simps) (simp add: next_piece_def split: sum.splits option.splits)

lemma latest_growing_end: "ordered \<noteq> [] \<Longrightarrow> latest ordered down = Inr (if down then last ordered else hd ordered)"
  by (cases ordered) (simp_all add: latest_def)

lemma walk_extend:
  "ordered \<noteq> [] \<Longrightarrow> walk st t down (if down then last ordered else hd ordered) xs \<Longrightarrow>
   distinct xs \<Longrightarrow> set xs \<inter> set ordered = {} \<Longrightarrow>
   extend_to_end st t down ordered
     = extend_to_end st t down (if down then ordered @ xs else rev xs @ ordered)"
proof (induction xs arbitrary: ordered)
  case Nil
  then show ?case by simp
next
  case (Cons x xs)
  let ?p = "if down then last ordered else hd ordered"
  let ?o = "extend_by_one ordered x down"
  from Cons.prems have nx: "next_piece st t down ?p = Inr (Some x)" and w: "walk st t down x xs"
    and new: "x \<notin> set ordered" by auto
  from Cons.prems(1) nx new have step: "extend_to_end st t down ordered = extend_to_end st t down ?o"
    by (subst extend_to_end_unfold) (simp add: latest_growing_end)
  have ne: "?o \<noteq> []" by (simp add: extend_by_one_def)
  have e: "(if down then last ?o else hd ?o) = x" by (simp add: extend_by_one_def)
  from Cons.prems have d: "distinct xs" and disj: "set xs \<inter> set ?o = {}"
    by (auto simp: extend_by_one_def)
  from w e have "walk st t down (if down then last ?o else hd ?o) xs" by simp
  with ne have "extend_to_end st t down ?o
     = extend_to_end st t down (if down then ?o @ xs else rev xs @ ?o)"
    using d disj by (rule Cons.IH)
  with step show ?case by (simp add: extend_by_one_def)
qed

lemma walk_revisit:
  assumes "ordered \<noteq> []" and "walk st t down (if down then last ordered else hd ordered) xs"
    and "distinct xs" and "set xs \<inter> set ordered = {}"
    and "next_piece st t down (last ((if down then last ordered else hd ordered) # xs)) = Inr (Some q)"
    and "q \<in> set ordered \<union> set xs"
  shows "extend_to_end st t down ordered = Inl IndecipherableLinkageError"
proof -
  let ?o = "if down then ordered @ xs else rev xs @ ordered"
  from assms(1) have ne: "?o \<noteq> []" by simp
  from assms(1) have e: "(if down then last ?o else hd ?o)
      = last ((if down then last ordered else hd ordered) # xs)"
    by (cases xs rule: rev_cases) (auto simp: hd_append)
  from assms(6) have q: "q \<in> set ?o" by auto
  have "extend_to_end st t down ordered = extend_to_end st t down ?o"
    using assms(1-4) by (rule walk_extend)
  also have "\<dots> = Inl IndecipherableLinkageError"
    using ne q assms(5) e by (subst extend_to_end_unfold) (simp add: latest_growing_end)
  finally show ?thesis .
qed

lemma walk_ends:
  assumes "ordered \<noteq> []" and "walk st t down (if down then last ordered else hd ordered) xs"
    and "distinct xs" and "set xs \<inter> set ordered = {}"
    and "next_piece st t down (last ((if down then last ordered else hd ordered) # xs)) = Inr None"
  shows "extend_to_end st t down ordered = Inr (if down then ordered @ xs else rev xs @ ordered)"
proof -
  let ?o = "if down then ordered @ xs else rev xs @ ordered"
  from assms(1) have ne: "?o \<noteq> []" by simp
  from assms(1) have e: "(if down then last ?o else hd ?o)
      = last ((if down then last ordered else hd ordered) # xs)"
    by (cases xs rule: rev_cases) (auto simp: hd_append)
  have "extend_to_end st t down ordered = extend_to_end st t down ?o"
    using assms(1-4) by (rule walk_extend)
  also have "\<dots> = Inr ?o"
    using ne assms(5) e by (subst extend_to_end_unfold) (simp add: latest_growing_end)
  finally show ?thesis .
qed

lemma extend_to_end_walked:
  "extend_to_end st t down ordered = Inr res \<Longrightarrow>
     ordered \<noteq> []
     \<and> (\<exists>added. res = (if down then ordered @ added else rev added @ ordered)
          \<and> walk st t down (if down then last ordered else hd ordered) added
          \<and> next_piece st t down (last ((if down then last ordered else hd ordered) # added))
               = Inr None
          \<and> distinct added \<and> set added \<inter> set ordered = {})"
proof (induction st t down ordered rule: extend_to_end.induct)
  case (1 st t down ordered)
  let ?p = "if down then last ordered else hd ordered"
  from "1.prems" have ne: "ordered \<noteq> []"
    by (subst (asm) extend_to_end_unfold) (auto simp: latest_def split: list.splits)
  then have cur: "latest ordered down = Inr ?p" by (rule latest_growing_end)
  from "1.prems" cur obtain nxt where nxt: "next_piece st t down ?p = Inr nxt"
    by (subst (asm) extend_to_end_unfold) (auto split: sum.splits)
  show ?case
  proof (cases nxt)
    case None
    with "1.prems" cur nxt have "res = ordered"
      by (subst (asm) extend_to_end_unfold) simp
    with ne nxt None show ?thesis by (intro conjI exI [of _ "[]"]) simp_all
  next
    case (Some np)
    from "1.prems" cur nxt Some have new: "np \<notin> set ordered"
      by (subst (asm) extend_to_end_unfold) (auto split: if_splits)
    from "1.prems" cur nxt Some new
    have rec: "extend_to_end st t down (extend_by_one ordered np down) = Inr res"
      by (subst (asm) extend_to_end_unfold) simp
    from nxt Some obtain nextlink where
      l: "(if down then get_downstream_link st t ?p else get_upstream_link st t ?p)
            = Inr (Some nextlink)"
      and g: "get_one_piece_from_stream st t
                (if down then downstream (pair_obj st nextlink)
                 else upstream (pair_obj st nextlink)) = Inr np"
      by (auto simp: next_piece_def split: sum.splits option.splits)
    let ?o = "extend_by_one ordered np down"
    have IH: "?o \<noteq> []
     \<and> (\<exists>added. res = (if down then ?o @ added else rev added @ ?o)
          \<and> walk st t down (if down then last ?o else hd ?o) added
          \<and> next_piece st t down (last ((if down then last ?o else hd ?o) # added)) = Inr None
          \<and> distinct added \<and> set added \<inter> set ?o = {})"
      by (rule "1.IH" [OF cur l refl g new rec])
    have e: "(if down then last ?o else hd ?o) = np" by (simp add: extend_by_one_def)
    from IH obtain added where a: "res = (if down then ?o @ added else rev added @ ?o)"
      "walk st t down np added" "next_piece st t down (last (np # added)) = Inr None"
      "distinct added" "set added \<inter> set ?o = {}"
      unfolding e by blast
    have "res = (if down then ordered @ (np # added) else rev (np # added) @ ordered)"
      using a(1) by (simp add: extend_by_one_def)
    moreover have "walk st t down ?p (np # added)" using nxt Some a(2) by simp
    moreover have "next_piece st t down (last (?p # np # added)) = Inr None" using a(3) by simp
    moreover have "distinct (np # added)" using a(4,5) by (auto simp: extend_by_one_def)
    moreover have "set (np # added) \<inter> set ordered = {}"
      using a(5) new by (auto simp: extend_by_one_def)
    ultimately show ?thesis using ne by blast
  qed
qed


lemma next_piece_None:
  "next_piece st t down p = Inr None \<longleftrightarrow>
     (if down then get_downstream_link st t p else get_upstream_link st t p) = Inr None"
  by (auto simp: next_piece_def split: sum.splits option.splits)

lemma sort_pieces_walks:
  "sort_pieces st t = Inr ordered \<longleftrightarrow>
     (\<exists>s rest downs ups. transcribed_pieces t = s # rest \<and> ordered = rev ups @ s # downs
        \<and> walk st t True s downs \<and> next_piece st t True (last (s # downs)) = Inr None
        \<and> walk st t False s ups \<and> next_piece st t False (last (s # ups)) = Inr None
        \<and> distinct ordered \<and> set ordered = set (transcribed_pieces t))"
proof
  assume a: "sort_pieces st t = Inr ordered"
  then obtain o1 where
    d: "extend_to_end st t True (take 1 (transcribed_pieces t)) = Inr o1"
    and u: "extend_to_end st t False o1 = Inr ordered"
    and cover: "set ordered = set (transcribed_pieces t)"
    by (auto simp: sort_pieces_def Let_def split: sum.splits if_splits)
  from extend_to_end_walked [OF d] obtain s rest where ps: "transcribed_pieces t = s # rest"
    by (cases "transcribed_pieces t") auto
  with extend_to_end_walked [OF d] obtain downs where downs: "o1 = s # downs"
    "walk st t True s downs" "next_piece st t True (last (s # downs)) = Inr None"
    "distinct downs" "s \<notin> set downs"
    by auto
  from extend_to_end_walked [OF u] downs(1) obtain ups where ups: "ordered = rev ups @ s # downs"
    "walk st t False s ups" "next_piece st t False (last (s # ups)) = Inr None"
    "distinct ups" "set ups \<inter> set (s # downs) = {}"
    by auto
  from downs(4,5) ups(1,4,5) have "distinct ordered" by auto
  with ps ups(1-3) downs(2,3) cover show "\<exists>s rest downs ups. transcribed_pieces t = s # rest
        \<and> ordered = rev ups @ s # downs
        \<and> walk st t True s downs \<and> next_piece st t True (last (s # downs)) = Inr None
        \<and> walk st t False s ups \<and> next_piece st t False (last (s # ups)) = Inr None
        \<and> distinct ordered \<and> set ordered = set (transcribed_pieces t)"
    by blast
next
  assume "\<exists>s rest downs ups. transcribed_pieces t = s # rest \<and> ordered = rev ups @ s # downs
        \<and> walk st t True s downs \<and> next_piece st t True (last (s # downs)) = Inr None
        \<and> walk st t False s ups \<and> next_piece st t False (last (s # ups)) = Inr None
        \<and> distinct ordered \<and> set ordered = set (transcribed_pieces t)"
  then obtain s rest downs ups where ps: "transcribed_pieces t = s # rest"
    and o: "ordered = rev ups @ s # downs"
    and wd: "walk st t True s downs" and ed: "next_piece st t True (last (s # downs)) = Inr None"
    and wu: "walk st t False s ups" and eu: "next_piece st t False (last (s # ups)) = Inr None"
    and dist: "distinct ordered" and cover: "set ordered = set (transcribed_pieces t)"
    by blast
  from dist o have dd: "distinct downs" "set downs \<inter> set [s] = {}"
    and du: "distinct ups" "set ups \<inter> set (s # downs) = {}"
    by auto
  have "extend_to_end st t True [s] = Inr (if True then [s] @ downs else rev downs @ [s])"
    by (rule walk_ends) (insert wd ed dd, simp_all)
  then have d: "extend_to_end st t True [s] = Inr (s # downs)" by simp
  have "extend_to_end st t False (s # downs)
      = Inr (if False then (s # downs) @ ups else rev ups @ s # downs)"
    by (rule walk_ends) (insert wu eu du, simp_all)
  then have u: "extend_to_end st t False (s # downs) = Inr ordered" using o by simp
  from ps d u cover show "sort_pieces st t = Inr ordered"
    by (simp add: sort_pieces_def)
qed

lemma sort_pieces_result:
  assumes "sort_pieces st t = Inr ordered"
  shows "ordered \<noteq> [] \<and> distinct ordered \<and> set ordered = set (transcribed_pieces t)
    \<and> get_downstream_link st t (last ordered) = Inr None
    \<and> get_upstream_link st t (hd ordered) = Inr None"
proof -
  from assms obtain s rest downs ups where o: "ordered = rev ups @ s # downs"
    and ed: "next_piece st t True (last (s # downs)) = Inr None"
    and eu: "next_piece st t False (last (s # ups)) = Inr None"
    and dist: "distinct ordered" and cover: "set ordered = set (transcribed_pieces t)"
    unfolding sort_pieces_walks by blast
  from o have l: "last ordered = last (s # downs)" by simp
  from o have h: "hd ordered = last (s # ups)"
    by (cases ups rule: rev_cases) (simp_all add: hd_append)
  from ed eu show ?thesis
    unfolding next_piece_None l [symmetric] h [symmetric] using o dist cover by simp
qed

lemmas demo_defs = demo_session_def demo_transcript_def ambiguous_transcript_def
  cyclic_transcript_def demo_feature_def demo_pair_def

lemmas collapsing_defs = collapsing_session_def collapsing_transcript_def

lemmas stacker_defs = sorted_features_def agree_with_first_def full_stack_matches_def
  stack_matches_def feature_key_def feature_bearing_def positional_match_def
  bearing_match_def sort_by_bearing_def

lemmas link_defs = get_downstream_link_def get_upstream_link_def find_matching_links_def
  links_list2link_def stack_matches_def positional_match_def get_one_piece_from_stream_def
  sort_pieces_def latest_def extend_by_one_def extend_to_end.simps

section \<open>Facts about the copy loop\<close>




lemma insert_everywhere_head: "x # bs \<in> set (insert_everywhere x bs)"
  by (cases bs) simp_all

lemma insert_everywhere_mem: "as @ x # bs \<in> set (insert_everywhere x (as @ bs))"
  by (induction as) (simp_all add: insert_everywhere_head)

lemma orders_complete:
  "distinct xs \<Longrightarrow> distinct zs \<Longrightarrow> set zs = set xs \<Longrightarrow> zs \<in> set (orders xs)"
proof (induction xs arbitrary: zs)
  case Nil
  then show ?case by simp
next
  case (Cons x xs)
  from Cons.prems have "x \<in> set zs" by auto
  then obtain as bs where zs: "zs = as @ x # bs" by (auto simp: in_set_conv_decomp)
  with Cons.prems have "distinct (as @ bs)" and "set (as @ bs) = set xs" by auto
  with Cons.prems(1) have "as @ bs \<in> set (orders xs)" by (intro Cons.IH) auto
  with zs show ?case using insert_everywhere_mem [of as x bs] by auto
qed







lemmas world_defs = demo_world_def demo_handler_def demo_record_def demo_class_def

lemmas handler_defs = link_to_def de_link_def assign_def append_to_def remove_from_def
  isinstance_def isinstance_any_def isinstance_data_def feature_link_to_def assign_handler_def


section \<open>Order of the groups the stacker emits\<close>

text \<open>
  C2 (amended).  For a piece whose features pass the two checks of
  \<open>sorted_features\<close>, take any two groups of \<open>full_stack_matches\<close>, one emitted
  before the other, and any feature \<open>x\<close> of the earlier and \<open>y\<close> of the later group.
  The position key does not decrease from \<open>x\<close> to \<open>y\<close> in the direction of the
  strand (ascending on the plus strand, descending on the minus strand); and when the
  two keys are equal, the number that the table of \<open>sort_by_bearing\<close> gives to the
  bearing of \<open>x\<close> is smaller than that of \<open>y\<close>: at one position the groups come in
  the order END (0), CLOSE_STATUS (1), OPEN_STATUS (2), START (3), POINT (4), the
  lowest number first.  Every group is non-empty and holds one position key and one
  bearing.
\<close>

theorem stacker_order:
  fixes st :: "('k::linorder, 'p) session"
  assumes "sorted_features st piece = Inr fs"
  shows "sorted_wrt (\<lambda>g h. \<forall>x\<in>set g. \<forall>y\<in>set h.
            (if is_plus_strand (feature_obj st x)
             then feature_key st x \<le> feature_key st y
             else feature_key st y \<le> feature_key st x)
            \<and> (feature_key st x = feature_key st y
                 \<longrightarrow> bearing_key (feature_bearing st x) < bearing_key (feature_bearing st y)))
          (full_stack_matches st fs)
       \<and> (\<forall>g\<in>set (full_stack_matches st fs). g \<noteq> [] \<and> (\<forall>x\<in>set g. \<forall>y\<in>set g.
             feature_key st x = feature_key st y \<and> feature_bearing st x = feature_bearing st y))"
proof
  let ?k = "feature_key st" and ?b = "feature_bearing st"
  let ?plus = "is_plus_strand (feature_obj st (hd fs))"
  let ?le = "\<lambda>a b :: 'k. if ?plus then a \<le> b else b \<le> a"
  from assms have strand: "\<forall>x\<in>set fs. \<forall>y\<in>set fs.
      is_plus_strand (feature_obj st x) = is_plus_strand (feature_obj st y)"
    and ne: "fs \<noteq> []"
    and fs: "if ?plus then fs = sort_key ?k (piece_features st piece)
             else fs = rev (sort_key ?k (piece_features st piece))"
    using sorted_features_Inr [of st piece fs] by blast+
  have "sorted (map ?k (sort_key ?k (piece_features st piece)))" by (rule sorted_sort_key)
  then have up: "sorted_wrt (\<lambda>x y. ?k x \<le> ?k y) (sort_key ?k (piece_features st piece))"
    by (simp add: sorted_map)
  have srt: "sorted_wrt (\<lambda>x y. ?le (?k x) (?k y)) fs"
  proof (cases ?plus)
    case True
    with fs up show ?thesis by simp
  next
    case False
    with fs have "fs = rev (sort_key ?k (piece_features st piece))" by simp
    with up False show ?thesis by (simp add: sorted_wrt_rev)
  qed
  have "sorted_wrt (\<lambda>g h. \<forall>x\<in>set g. \<forall>y\<in>set h.
            ?le (?k x) (?k y) \<and> (?k x = ?k y \<longrightarrow> bearing_key (?b x) < bearing_key (?b y)))
          (full_stack_matches st fs)"
    using _ _ _ srt by (rule full_stack_matches_order) (auto split: if_splits)
  then show "sorted_wrt (\<lambda>g h. \<forall>x\<in>set g. \<forall>y\<in>set h.
            (if is_plus_strand (feature_obj st x) then ?k x \<le> ?k y else ?k y \<le> ?k x)
            \<and> (?k x = ?k y \<longrightarrow> bearing_key (?b x) < bearing_key (?b y)))
          (full_stack_matches st fs)"
  proof (rule sorted_wrt_mono_rel [rotated])
    fix g h assume g: "g \<in> set (full_stack_matches st fs)"
      and r: "\<forall>x\<in>set g. \<forall>y\<in>set h.
            ?le (?k x) (?k y) \<and> (?k x = ?k y \<longrightarrow> bearing_key (?b x) < bearing_key (?b y))"
    show "\<forall>x\<in>set g. \<forall>y\<in>set h.
            (if is_plus_strand (feature_obj st x) then ?k x \<le> ?k y else ?k y \<le> ?k x)
            \<and> (?k x = ?k y \<longrightarrow> bearing_key (?b x) < bearing_key (?b y))"
    proof (intro ballI)
      fix x y assume x: "x \<in> set g" and y: "y \<in> set h"
      from g x have "x \<in> set fs" by (rule full_stack_matches_members)
      moreover from ne have "hd fs \<in> set fs" by simp
      ultimately have "is_plus_strand (feature_obj st x) = ?plus" using strand by blast
      with r x y show "(if is_plus_strand (feature_obj st x) then ?k x \<le> ?k y else ?k y \<le> ?k x)
            \<and> (?k x = ?k y \<longrightarrow> bearing_key (?b x) < bearing_key (?b y))"
        by simp
    qed
  qed
next
  show "\<forall>g\<in>set (full_stack_matches st fs). g \<noteq> [] \<and> (\<forall>x\<in>set g. \<forall>y\<in>set g.
             feature_key st x = feature_key st y \<and> feature_bearing st x = feature_bearing st y)"
    using full_stack_matches_groups by blast
qed

theorem stacker_order_witness:
  "sorted_features demo_session 2 = Inr [20, 12]
   \<and> full_stack_matches demo_session [20, 12] = [[20], [12]]
   \<and> sorted_wrt (\<lambda>g h. \<forall>x\<in>set g. \<forall>y\<in>set h.
            (if is_plus_strand (feature_obj demo_session x)
             then feature_key demo_session x \<le> feature_key demo_session y
             else feature_key demo_session y \<le> feature_key demo_session x)
            \<and> (feature_key demo_session x = feature_key demo_session y
                 \<longrightarrow> bearing_key (feature_bearing demo_session x)
                     < bearing_key (feature_bearing demo_session y)))
          (full_stack_matches demo_session [20, 12])"
proof -
  have run: "sorted_features demo_session 2 = Inr [20, 12]"
    by (simp add: stacker_defs demo_defs)
  have groups: "full_stack_matches demo_session [20, 12] = [[20], [12]]"
    by (simp add: stacker_defs demo_defs)
  from stacker_order [OF run] run groups show ?thesis by blast
qed

text \<open>
  The claim as written puts START and OPEN_STATUS before CLOSE_STATUS and END at one
  position.  In piece 3 the coding start 30 and the intron end 31 share their position
  key; the group of the END comes out first.
\<close>

theorem stacker_order_counterexample:
  "sorted_features demo_session 3 = Inr [30, 31]
   \<and> feature_key demo_session 30 = feature_key demo_session 31
   \<and> feature_bearing demo_session 30 = START
   \<and> feature_bearing demo_session 31 = END
   \<and> full_stack_matches demo_session [30, 31] = [[31], [30]]"
  by (simp add: stacker_defs demo_defs)

section \<open>Pieces that \<open>sorted_features\<close> refuses\<close>

text \<open>
  C9.  When two features of a piece differ in \<open>is_plus_strand\<close> or in their
  \<open>coordinates\<close> region, \<open>sorted_features\<close> returns no list: one of its two
  assertions fails.  The exception the code raises there is Python's
  \<open>AssertionError\<close>, which is what the specification calls a structural
  consistency error.
\<close>

theorem sorted_features_mixed:
  assumes "f \<in> set (piece_features st piece)" and "g \<in> set (piece_features st piece)"
    and "is_plus_strand (feature_obj st f) \<noteq> is_plus_strand (feature_obj st g)
         \<or> coordinates (feature_obj st f) \<noteq> coordinates (feature_obj st g)"
  shows "sorted_features st piece = Inl AssertionError"
proof -
  from assms have "\<not> agree_with_first (\<lambda>f. coordinates (feature_obj st f)) (piece_features st piece)
      \<or> \<not> agree_with_first (\<lambda>f. is_plus_strand (feature_obj st f)) (piece_features st piece)"
    unfolding agree_with_first_iff by blast
  then show ?thesis
    by (auto simp: sorted_features_def Let_def)
qed

theorem sorted_features_mixed_witness:
  "21 \<in> set (piece_features (demo_session\<lparr>piece_features := (\<lambda>p. [21, 20])\<rparr>) 7)
   \<and> 20 \<in> set (piece_features (demo_session\<lparr>piece_features := (\<lambda>p. [21, 20])\<rparr>) 7)
   \<and> is_plus_strand (feature_obj (demo_session\<lparr>piece_features := (\<lambda>p. [21, 20])\<rparr>) 21)
      \<noteq> is_plus_strand (feature_obj (demo_session\<lparr>piece_features := (\<lambda>p. [21, 20])\<rparr>) 20)
   \<and> sorted_features (demo_session\<lparr>piece_features := (\<lambda>p. [21, 20])\<rparr>) 7 = Inl AssertionError"
proof -
  let ?st = "demo_session\<lparr>piece_features := (\<lambda>p. [21, 20])\<rparr>"
  have a: "21 \<in> set (piece_features ?st 7)" and b: "20 \<in> set (piece_features ?st 7)"
    by simp_all
  have c: "is_plus_strand (feature_obj ?st 21) \<noteq> is_plus_strand (feature_obj ?st 20)"
    by (simp add: demo_defs)
  then have "is_plus_strand (feature_obj ?st 21) \<noteq> is_plus_strand (feature_obj ?st 20)
      \<or> coordinates (feature_obj ?st 21) \<noteq> coordinates (feature_obj ?st 20)" ..
  with a b have "sorted_features ?st 7 = Inl AssertionError"
    by (rule sorted_features_mixed)
  with a b c show ?thesis by blast
qed

text \<open>
  C10.  On a piece without features \<open>sorted_features\<close> does not return the empty
  list: it raises \<open>IndexError\<close> where it reads the strand of the first sorted
  feature.  Hence whenever it returns, the piece (and the list returned) has a feature;
  every step that \<open>transition_5p_to_3p\<close> yields belongs to a piece with a feature;
  and when \<open>transition_5p_to_3p\<close> runs to its end without an exception, every piece
  of the transcript has a feature.
\<close>

theorem empty_piece_fails:
  "(piece_features st piece = [] \<longrightarrow> sorted_features st piece = Inl IndexError)
   \<and> (\<forall>fs. sorted_features st piece = Inr fs \<longrightarrow> piece_features st piece \<noteq> [] \<and> fs \<noteq> [])
   \<and> (\<forall>g s p. (g, s, p) \<in> set (fst (transition_5p_to_3p st t)) \<longrightarrow> piece_features st p \<noteq> [])
   \<and> (snd (transition_5p_to_3p st t) = None \<longrightarrow>
        (\<forall>p\<in>set (transcribed_pieces t). piece_features st p \<noteq> []))"
proof (intro conjI allI impI ballI)
  assume "piece_features st piece = []"
  then show "sorted_features st piece = Inl IndexError"
    by (simp add: sorted_features_def agree_with_first_def)
next
  fix fs assume "sorted_features st piece = Inr fs"
  then show "piece_features st piece \<noteq> []" by (rule sorted_features_Inr_nonempty)
next
  fix fs assume "sorted_features st piece = Inr fs"
  then show "fs \<noteq> []"
    by (auto simp: sorted_features_def Let_def split: if_splits list.splits)
next
  fix g s p assume "(g, s, p) \<in> set (fst (transition_5p_to_3p st t))"
  then obtain ps where "(g, s, p) \<in> set (fst (emit_pieces st init_status ps))"
    by (auto simp: transition_5p_to_3p_def split: sum.splits)
  then have "\<exists>fs. sorted_features st p = Inr fs"
    using emit_pieces_step [of st init_status ps "fst (emit_pieces st init_status ps)" "snd (emit_pieces st init_status ps)" g s p]
    by simp
  then show "piece_features st p \<noteq> []" using sorted_features_Inr_nonempty by blast
next
  fix p assume fin: "snd (transition_5p_to_3p st t) = None" and p: "p \<in> set (transcribed_pieces t)"
  from fin obtain ps where ps: "sort_pieces st t = Inr ps" and e: "snd (emit_pieces st init_status ps) = None"
    by (auto simp: transition_5p_to_3p_def split: sum.splits)
  from ps p have "p \<in> set ps" by (simp add: sort_pieces_set)
  with e have "\<exists>fs. sorted_features st p = Inr fs"
    using emit_pieces_finished [of st init_status ps "fst (emit_pieces st init_status ps)" p]
    by (simp add: prod_eq_iff)
  then show "piece_features st p \<noteq> []" using sorted_features_Inr_nonempty by blast
qed

theorem empty_piece_fails_witness:
  "piece_features demo_session 4 = []
   \<and> sorted_features demo_session 4 = Inl IndexError
   \<and> sorted_features demo_session 2 = Inr [20, 12]
   \<and> piece_features demo_session 2 \<noteq> []
   \<and> snd (transition_5p_to_3p demo_session demo_transcript) = None
   \<and> piece_features demo_session 1 \<noteq> []"
proof -
  have a: "piece_features demo_session 4 = []" by (simp add: demo_defs)
  have b: "sorted_features demo_session 2 = Inr [20, 12]"
    by (simp add: stacker_defs demo_defs)
  have c: "snd (transition_5p_to_3p demo_session demo_transcript) = None"
    by (simp add: transition_5p_to_3p_def link_defs stacker_defs demo_defs insert_commute
        update_status_one_def update_for_feature_def init_status_def
        saw_tss_def saw_tts_def no_kwargs_def)
  have d: "1 \<in> set (transcribed_pieces demo_transcript)" by (simp add: demo_defs)
  from empty_piece_fails [of demo_session 4 demo_transcript]
    empty_piece_fails [of demo_session 2 demo_transcript] a b c d
  show ?thesis by blast
qed

section \<open>A transcript in two pieces\<close>

text \<open>
  C1 (amended).  Let a transcript own exactly the two pieces \<open>p1\<close> and \<open>p2\<close> and
  exactly one pair \<open>pr\<close>, whose \<open>downstream\<close> slot is the \<^verbatim>\<open>DownstreamFeature\<close>
  \<open>F1\<close> of \<open>p1\<close> and whose \<open>upstream\<close> slot is the \<^verbatim>\<open>UpstreamFeature\<close>
  \<open>F2\<close> of \<open>p2\<close>.  The code reads the pair as leading from the piece of its
  upstream feature to the piece of its downstream feature, that is from \<open>p2\<close> to
  \<open>p1\<close>: \<open>get_upstream_link p1\<close> and \<open>get_downstream_link p2\<close> return the pair,
  \<open>get_downstream_link p1\<close> and \<open>get_upstream_link p2\<close> return none, and
  \<open>sort_pieces\<close> returns \<open>[p2, p1]\<close>, whichever of the two pieces the transcript
  lists first.
\<close>

theorem two_piece_order:
  assumes ne: "p1 \<noteq> p2"
    and pieces: "transcribed_pieces t = [p1, p2] \<or> transcribed_pieces t = [p2, p1]"
    and pairs: "pairs t = [pr]"
    and up: "upstream (pair_obj st pr) = Some F2"
    and down: "downstream (pair_obj st pr) = Some F1"
    and F1: "F1 \<in> set (downstream_features st)" "f_transcribed_pieces (feature_obj st F1) = [p1]"
    and F2: "F2 \<in> set (upstream_features st)" "f_transcribed_pieces (feature_obj st F2) = [p2]"
  shows "get_downstream_link st t p1 = Inr None
       \<and> get_upstream_link st t p1 = Inr (Some pr)
       \<and> get_downstream_link st t p2 = Inr (Some pr)
       \<and> get_upstream_link st t p2 = Inr None
       \<and> sort_pieces st t = Inr [p2, p1]"
proof -
  have d1: "get_downstream_link st t p1 = Inr None"
    using ne pairs up F2 by (intro down_link_none) auto
  have u1: "get_upstream_link st t p1 = Inr (Some pr)"
    using pairs down F1 by (intro up_link_one [where f = F1]) auto
  have d2: "get_downstream_link st t p2 = Inr (Some pr)"
    using pairs up F2 by (intro down_link_one [where f = F2]) auto
  have u2: "get_upstream_link st t p2 = Inr None"
    using ne pairs down F1 by (intro up_link_none) auto
  have g1: "get_one_piece_from_stream st t (Some F1) = Inr p1"
    using pieces ne F1 by (auto simp: get_one_piece_from_stream_def)
  have g2: "get_one_piece_from_stream st t (Some F2) = Inr p2"
    using pieces ne F2 by (auto simp: get_one_piece_from_stream_def)
  have done_down: "extend_to_end st t True [p2, p1] = Inr [p2, p1]"
    by (subst extend_to_end.simps) (simp add: latest_def d1)
  have done_up: "extend_to_end st t False [p2, p1] = Inr [p2, p1]"
    by (subst extend_to_end.simps) (simp add: latest_def u2)
  have from1_down: "extend_to_end st t True [p1] = Inr [p1]"
    by (subst extend_to_end.simps) (simp add: latest_def d1)
  have from1_up: "extend_to_end st t False [p1] = Inr [p2, p1]"
    using ne by (subst extend_to_end.simps) (simp add: latest_def u1 up g2 extend_by_one_def done_up)
  have from2_down: "extend_to_end st t True [p2] = Inr [p2, p1]"
    using ne by (subst extend_to_end.simps) (simp add: latest_def d2 down g1 extend_by_one_def done_down)
  from pieces have "sort_pieces st t = Inr [p2, p1]"
  proof
    assume "transcribed_pieces t = [p1, p2]"
    then show ?thesis by (auto simp: sort_pieces_def from1_down from1_up)
  next
    assume "transcribed_pieces t = [p2, p1]"
    then show ?thesis by (simp add: sort_pieces_def from2_down done_up)
  qed
  with d1 u1 d2 u2 show ?thesis by simp
qed

theorem two_piece_order_witness:
  "(1::nat) \<noteq> 2
   \<and> transcribed_pieces demo_transcript = [1, 2]
   \<and> pairs demo_transcript = [0]
   \<and> upstream (pair_obj demo_session 0) = Some 12
   \<and> downstream (pair_obj demo_session 0) = Some 11
   \<and> 11 \<in> set (downstream_features demo_session)
   \<and> f_transcribed_pieces (feature_obj demo_session 11) = [1]
   \<and> 12 \<in> set (upstream_features demo_session)
   \<and> f_transcribed_pieces (feature_obj demo_session 12) = [2]
   \<and> get_upstream_link demo_session demo_transcript 1 = Inr (Some 0)
   \<and> get_downstream_link demo_session demo_transcript 2 = Inr (Some 0)
   \<and> get_upstream_link demo_session demo_transcript 2 = Inr None
   \<and> sort_pieces demo_session demo_transcript = Inr [2, 1]"
proof -
  have ne: "(1::nat) \<noteq> 2" by simp
  have pieces: "transcribed_pieces demo_transcript = [1, 2]
      \<or> transcribed_pieces demo_transcript = [2, 1]"
    and pieces': "transcribed_pieces demo_transcript = [1, 2]"
    and pairs: "pairs demo_transcript = [0]"
    by (simp_all add: demo_defs)
  have up: "upstream (pair_obj demo_session 0) = Some 12"
    and down: "downstream (pair_obj demo_session 0) = Some 11"
    and F1: "11 \<in> set (downstream_features demo_session)"
      "f_transcribed_pieces (feature_obj demo_session 11) = [1]"
    and F2: "12 \<in> set (upstream_features demo_session)"
      "f_transcribed_pieces (feature_obj demo_session 12) = [2]"
    by (simp_all add: demo_defs)
  from two_piece_order [OF ne pieces pairs up down F1 F2] ne pieces' pairs up down F1 F2
  show ?thesis by simp
qed

text \<open>
  The claim as written expects \<open>get_downstream_link\<close> of piece 1 to return the pair and
  \<open>sort_pieces\<close> to return pieces 1, 2 in this order.  On the demonstration graph
  (piece 1 holds the \<^verbatim>\<open>DownstreamFeature\<close> 11, piece 2 the \<^verbatim>\<open>UpstreamFeature\<close> 12,
  pair 0 has \<open>upstream = 12\<close> and \<open>downstream = 11\<close>) the code returns none and the
  order 2, 1.
\<close>

theorem two_piece_order_counterexample:
  "transcribed_pieces demo_transcript = [1, 2]
   \<and> pairs demo_transcript = [0]
   \<and> upstream (pair_obj demo_session 0) = Some 12
   \<and> downstream (pair_obj demo_session 0) = Some 11
   \<and> f_transcribed_pieces (feature_obj demo_session 11) = [1]
   \<and> f_transcribed_pieces (feature_obj demo_session 12) = [2]
   \<and> get_downstream_link demo_session demo_transcript 1 = Inr None
   \<and> sort_pieces demo_session demo_transcript = Inr [2, 1]"
  by (simp add: link_defs demo_defs insert_commute)

section \<open>Resolving the link of a piece\<close>

text \<open>
  C7 (amended).  \<open>get_downstream_link\<close> of a piece considers the pairs of the
  transcript whose \<open>upstream\<close> slot is an \<^verbatim>\<open>UpstreamFeature\<close> of the session that
  belongs to the piece (the set \<open>M\<close> below).  It returns none when there is no such
  pair; it returns the pair when there is exactly one; when all such pairs have one
  position key it returns one of them; and it raises
  \<open>IndecipherableLinkageError\<close> when two of them differ in their position key.
  Pairs that name a \<^verbatim>\<open>DownstreamFeature\<close> of the piece are the ones that
  \<open>get_upstream_link\<close> considers: when two pairs of the transcript with different
  position keys both have a \<^verbatim>\<open>DownstreamFeature\<close> of the piece in their
  \<open>downstream\<close> slot, \<open>get_upstream_link\<close> of the piece raises
  \<open>IndecipherableLinkageError\<close>.
\<close>

theorem link_resolution:
  fixes st :: "('k, 'p) session"
  shows
   "(let M = {l \<in> set (pairs t). \<exists>f\<in>set (upstream_features st).
               piece \<in> set (f_transcribed_pieces (feature_obj st f))
               \<and> upstream (pair_obj st l) = Some f};
         r = get_downstream_link st t piece
     in (M = {} \<longrightarrow> r = Inr None)
      \<and> (\<forall>l. M = {l} \<longrightarrow> r = Inr (Some l))
      \<and> (M \<noteq> {} \<and> (\<forall>l\<in>M. \<forall>l'\<in>M. pair_pos_cmp_key (pair_obj st l) = pair_pos_cmp_key (pair_obj st l'))
           \<longrightarrow> (\<exists>l\<in>M. r = Inr (Some l)))
      \<and> ((\<exists>l\<in>M. \<exists>l'\<in>M. pair_pos_cmp_key (pair_obj st l) \<noteq> pair_pos_cmp_key (pair_obj st l'))
           \<longrightarrow> r = Inl IndecipherableLinkageError))
    \<and> (\<forall>p q f. p \<in> set (pairs t) \<and> q \<in> set (pairs t)
          \<and> downstream (pair_obj st p) = Some f \<and> downstream (pair_obj st q) = Some f
          \<and> f \<in> set (downstream_features st)
          \<and> piece \<in> set (f_transcribed_pieces (feature_obj st f))
          \<and> pair_pos_cmp_key (pair_obj st p) \<noteq> pair_pos_cmp_key (pair_obj st q)
        \<longrightarrow> get_upstream_link st t piece = Inl IndecipherableLinkageError)"
proof
  show "let M = {l \<in> set (pairs t). \<exists>f\<in>set (upstream_features st).
               piece \<in> set (f_transcribed_pieces (feature_obj st f))
               \<and> upstream (pair_obj st l) = Some f};
         r = get_downstream_link st t piece
     in (M = {} \<longrightarrow> r = Inr None)
      \<and> (\<forall>l. M = {l} \<longrightarrow> r = Inr (Some l))
      \<and> (M \<noteq> {} \<and> (\<forall>l\<in>M. \<forall>l'\<in>M. pair_pos_cmp_key (pair_obj st l) = pair_pos_cmp_key (pair_obj st l'))
           \<longrightarrow> (\<exists>l\<in>M. r = Inr (Some l)))
      \<and> ((\<exists>l\<in>M. \<exists>l'\<in>M. pair_pos_cmp_key (pair_obj st l) \<noteq> pair_pos_cmp_key (pair_obj st l'))
           \<longrightarrow> r = Inl IndecipherableLinkageError)"
    unfolding Let_def
    by (rule resolve_cases [OF get_downstream_link_cases [unfolded Let_def] set_downstream_links])
next
  show "\<forall>p q f. p \<in> set (pairs t) \<and> q \<in> set (pairs t)
          \<and> downstream (pair_obj st p) = Some f \<and> downstream (pair_obj st q) = Some f
          \<and> f \<in> set (downstream_features st)
          \<and> piece \<in> set (f_transcribed_pieces (feature_obj st f))
          \<and> pair_pos_cmp_key (pair_obj st p) \<noteq> pair_pos_cmp_key (pair_obj st q)
        \<longrightarrow> get_upstream_link st t piece = Inl IndecipherableLinkageError"
  proof (intro allI impI)
    fix p q f
    assume a: "p \<in> set (pairs t) \<and> q \<in> set (pairs t)
          \<and> downstream (pair_obj st p) = Some f \<and> downstream (pair_obj st q) = Some f
          \<and> f \<in> set (downstream_features st)
          \<and> piece \<in> set (f_transcribed_pieces (feature_obj st f))
          \<and> pair_pos_cmp_key (pair_obj st p) \<noteq> pair_pos_cmp_key (pair_obj st q)"
    let ?M = "{l \<in> set (pairs t). \<exists>f\<in>set (downstream_features st).
        piece \<in> set (f_transcribed_pieces (feature_obj st f)) \<and> downstream (pair_obj st l) = Some f}"
    from a have "p \<in> ?M" "q \<in> ?M" by auto
    with a have "\<exists>l\<in>?M. \<exists>l'\<in>?M. pair_pos_cmp_key (pair_obj st l) \<noteq> pair_pos_cmp_key (pair_obj st l')"
      by blast
    moreover have "(\<exists>l\<in>?M. \<exists>l'\<in>?M. pair_pos_cmp_key (pair_obj st l) \<noteq> pair_pos_cmp_key (pair_obj st l'))
        \<longrightarrow> get_upstream_link st t piece = Inl IndecipherableLinkageError"
      by (rule resolve_cases [OF get_upstream_link_cases [unfolded Let_def] set_upstream_links,
            THEN conjunct2, THEN conjunct2, THEN conjunct2])
    ultimately show "get_upstream_link st t piece = Inl IndecipherableLinkageError"
      by (rule rev_mp)
  qed
qed

theorem link_resolution_witness:
  "{l \<in> set (pairs demo_transcript). \<exists>f\<in>set (upstream_features demo_session).
       2 \<in> set (f_transcribed_pieces (feature_obj demo_session f))
       \<and> upstream (pair_obj demo_session l) = Some f} = {0}
   \<and> get_downstream_link demo_session demo_transcript 2 = Inr (Some 0)
   \<and> 0 \<in> set (pairs ambiguous_transcript) \<and> 1 \<in> set (pairs ambiguous_transcript)
   \<and> downstream (pair_obj demo_session 0) = Some 11
   \<and> downstream (pair_obj demo_session 1) = Some 11
   \<and> 11 \<in> set (downstream_features demo_session)
   \<and> 1 \<in> set (f_transcribed_pieces (feature_obj demo_session 11))
   \<and> pair_pos_cmp_key (pair_obj demo_session 0) \<noteq> pair_pos_cmp_key (pair_obj demo_session 1)
   \<and> get_upstream_link demo_session ambiguous_transcript 1 = Inl IndecipherableLinkageError"
proof -
  have M: "{l \<in> set (pairs demo_transcript). \<exists>f\<in>set (upstream_features demo_session).
       2 \<in> set (f_transcribed_pieces (feature_obj demo_session f))
       \<and> upstream (pair_obj demo_session l) = Some f} = {0}"
    by (auto simp: demo_defs)
  have scenario: "0 \<in> set (pairs ambiguous_transcript) \<and> 1 \<in> set (pairs ambiguous_transcript)
     \<and> downstream (pair_obj demo_session 0) = Some 11
     \<and> downstream (pair_obj demo_session 1) = Some 11
     \<and> 11 \<in> set (downstream_features demo_session)
     \<and> 1 \<in> set (f_transcribed_pieces (feature_obj demo_session 11))
     \<and> pair_pos_cmp_key (pair_obj demo_session 0) \<noteq> pair_pos_cmp_key (pair_obj demo_session 1)"
    by (simp add: demo_defs)
  from link_resolution [of demo_transcript demo_session 2, unfolded Let_def] M
  have one: "get_downstream_link demo_session demo_transcript 2 = Inr (Some 0)" by blast
  from link_resolution [of ambiguous_transcript demo_session 1, unfolded Let_def] scenario
  have two: "get_upstream_link demo_session ambiguous_transcript 1 = Inl IndecipherableLinkageError"
    by blast
  from M one scenario two show ?thesis by simp
qed

text \<open>
  The claim as written expects \<open>get_downstream_link\<close> of piece 1 to raise when two
  pairs both name the \<^verbatim>\<open>DownstreamFeature\<close> of piece 1.  Pairs 0 and 1 of the
  ambiguous transcript do; the code returns none.
\<close>

theorem link_resolution_counterexample:
  "pairs ambiguous_transcript = [0, 1]
   \<and> downstream (pair_obj demo_session 0) = Some 11
   \<and> downstream (pair_obj demo_session 1) = Some 11
   \<and> 11 \<in> set (downstream_features demo_session)
   \<and> f_transcribed_pieces (feature_obj demo_session 11) = [1]
   \<and> get_downstream_link demo_session ambiguous_transcript 1 = Inr None"
  by (simp add: link_defs demo_defs)

section \<open>Cycles among the links\<close>

text \<open>
  C8 (amended).  The orderer follows, from the piece at the growing end, the one link
  that link resolution returns for it (\<open>next_piece\<close>).  Whenever, after any number of
  rounds in either direction, the piece that the link resolves to is already in the
  ordered sequence, \<open>extend_to_end\<close> raises \<open>IndecipherableLinkageError\<close>.  So a
  cycle along the links that are followed never yields an ordering: when the walk from
  the first piece of the transcript comes back to a piece it has visited, downstream
  or, after the downstream walk has ended, upstream, \<open>sort_pieces\<close> raises
  \<open>IndecipherableLinkageError\<close>.  \<open>sort_pieces\<close> returns a list exactly when the
  downstream walk and the upstream walk from the first piece both end at a piece
  without a further link, visit no piece twice and together cover the pieces of the
  transcript; the list is then the upstream walk reversed, the first piece and the
  downstream walk.  Such a list holds every piece once, its last piece has no
  downstream link and its first piece no upstream link, so a link set in which every
  piece has a downstream link (or every piece an upstream link) yields no ordering.
  A cycle through a pair that link resolution does not return, because the pair shares
  its position key with the pair returned, is not followed and not detected.
\<close>

theorem cycle_detected:
  "(\<forall>down ordered xs q.
       ordered \<noteq> []
     \<and> walk st t down (if down then last ordered else hd ordered) xs
     \<and> distinct xs \<and> set xs \<inter> set ordered = {}
     \<and> next_piece st t down (last ((if down then last ordered else hd ordered) # xs))
          = Inr (Some q)
     \<and> q \<in> set ordered \<union> set xs
     \<longrightarrow> extend_to_end st t down ordered = Inl IndecipherableLinkageError)
   \<and> (\<forall>s rest xs q.
       transcribed_pieces t = s # rest \<and> walk st t True s xs \<and> distinct (s # xs)
     \<and> next_piece st t True (last (s # xs)) = Inr (Some q) \<and> q \<in> set (s # xs)
     \<longrightarrow> sort_pieces st t = Inl IndecipherableLinkageError)
   \<and> (\<forall>s rest downs ups q.
       transcribed_pieces t = s # rest
     \<and> walk st t True s downs \<and> next_piece st t True (last (s # downs)) = Inr None
     \<and> walk st t False s ups \<and> distinct (rev ups @ s # downs)
     \<and> next_piece st t False (last (s # ups)) = Inr (Some q) \<and> q \<in> set (rev ups @ s # downs)
     \<longrightarrow> sort_pieces st t = Inl IndecipherableLinkageError)
   \<and> (\<forall>ordered. sort_pieces st t = Inr ordered \<longleftrightarrow>
         (\<exists>s rest downs ups. transcribed_pieces t = s # rest \<and> ordered = rev ups @ s # downs
            \<and> walk st t True s downs \<and> next_piece st t True (last (s # downs)) = Inr None
            \<and> walk st t False s ups \<and> next_piece st t False (last (s # ups)) = Inr None
            \<and> distinct ordered \<and> set ordered = set (transcribed_pieces t)))
   \<and> (\<forall>ordered. sort_pieces st t = Inr ordered \<longrightarrow>
         distinct ordered \<and> set ordered = set (transcribed_pieces t)
         \<and> get_downstream_link st t (last ordered) = Inr None
         \<and> get_upstream_link st t (hd ordered) = Inr None)
   \<and> ((\<forall>p\<in>set (transcribed_pieces t). get_downstream_link st t p \<noteq> Inr None)
        \<or> (\<forall>p\<in>set (transcribed_pieces t). get_upstream_link st t p \<noteq> Inr None)
       \<longrightarrow> (\<exists>e. sort_pieces st t = Inl e))"
proof (intro conjI allI impI)
  fix down ordered xs q
  assume "ordered \<noteq> []
     \<and> walk st t down (if down then last ordered else hd ordered) xs
     \<and> distinct xs \<and> set xs \<inter> set ordered = {}
     \<and> next_piece st t down (last ((if down then last ordered else hd ordered) # xs))
          = Inr (Some q)
     \<and> q \<in> set ordered \<union> set xs"
  then show "extend_to_end st t down ordered = Inl IndecipherableLinkageError"
    by (intro walk_revisit [of ordered st t down xs q]) simp_all
next
  fix s rest xs q
  assume a: "transcribed_pieces t = s # rest \<and> walk st t True s xs \<and> distinct (s # xs)
     \<and> next_piece st t True (last (s # xs)) = Inr (Some q) \<and> q \<in> set (s # xs)"
  have "extend_to_end st t True [s] = Inl IndecipherableLinkageError"
    using a by (intro walk_revisit [of "[s]" st t True xs q]) auto
  with a show "sort_pieces st t = Inl IndecipherableLinkageError"
    by (simp add: sort_pieces_def)
next
  fix s rest downs ups q
  assume a: "transcribed_pieces t = s # rest
     \<and> walk st t True s downs \<and> next_piece st t True (last (s # downs)) = Inr None
     \<and> walk st t False s ups \<and> distinct (rev ups @ s # downs)
     \<and> next_piece st t False (last (s # ups)) = Inr (Some q) \<and> q \<in> set (rev ups @ s # downs)"
  have "extend_to_end st t True [s] = Inr (if True then [s] @ downs else rev downs @ [s])"
    using a by (intro walk_ends) auto
  then have d: "extend_to_end st t True [s] = Inr (s # downs)" by simp
  have u: "extend_to_end st t False (s # downs) = Inl IndecipherableLinkageError"
    using a by (intro walk_revisit [of "s # downs" st t False ups q]) auto
  from a d u show "sort_pieces st t = Inl IndecipherableLinkageError"
    by (simp add: sort_pieces_def)
next
  fix ordered
  show "sort_pieces st t = Inr ordered \<longleftrightarrow>
         (\<exists>s rest downs ups. transcribed_pieces t = s # rest \<and> ordered = rev ups @ s # downs
            \<and> walk st t True s downs \<and> next_piece st t True (last (s # downs)) = Inr None
            \<and> walk st t False s ups \<and> next_piece st t False (last (s # ups)) = Inr None
            \<and> distinct ordered \<and> set ordered = set (transcribed_pieces t))"
    by (rule sort_pieces_walks)
next
  fix ordered assume a: "sort_pieces st t = Inr ordered"
  from sort_pieces_result [OF a] show "distinct ordered" by simp
  from sort_pieces_result [OF a] show "set ordered = set (transcribed_pieces t)" by simp
  from sort_pieces_result [OF a] show "get_downstream_link st t (last ordered) = Inr None" by simp
  from sort_pieces_result [OF a] show "get_upstream_link st t (hd ordered) = Inr None" by simp
next
  assume no_end: "(\<forall>p\<in>set (transcribed_pieces t). get_downstream_link st t p \<noteq> Inr None)
        \<or> (\<forall>p\<in>set (transcribed_pieces t). get_upstream_link st t p \<noteq> Inr None)"
  show "\<exists>e. sort_pieces st t = Inl e"
  proof (cases "sort_pieces st t")
    case (Inl e)
    then show ?thesis by blast
  next
    case (Inr ordered)
    from sort_pieces_result [OF Inr] have ne: "ordered \<noteq> []"
      and s: "set ordered = set (transcribed_pieces t)"
      and d: "get_downstream_link st t (last ordered) = Inr None"
      and u: "get_upstream_link st t (hd ordered) = Inr None"
      by simp_all
    from ne s have "last ordered \<in> set (transcribed_pieces t)"
      "hd ordered \<in> set (transcribed_pieces t)"
      using last_in_set hd_in_set by blast+
    with no_end d u show ?thesis by blast
  qed
qed

theorem cycle_detected_witness:
  "transcribed_pieces cyclic_transcript = 5 # [6]
   \<and> walk demo_session cyclic_transcript True 5 [6]
   \<and> next_piece demo_session cyclic_transcript True (last (5 # [6])) = Inr (Some 5)
   \<and> sort_pieces demo_session cyclic_transcript = Inl IndecipherableLinkageError
   \<and> extend_to_end demo_session cyclic_transcript True [5] = Inl IndecipherableLinkageError
   \<and> sort_pieces demo_session demo_transcript = Inr [2, 1]
   \<and> get_downstream_link demo_session demo_transcript 1 = Inr None
   \<and> get_upstream_link demo_session demo_transcript 2 = Inr None"
proof -
  have a: "transcribed_pieces cyclic_transcript = 5 # [6]" by (simp add: demo_defs)
  have b: "walk demo_session cyclic_transcript True 5 [6]"
    and c: "next_piece demo_session cyclic_transcript True (last (5 # [6])) = Inr (Some 5)"
    by (simp_all add: next_piece_def link_defs demo_defs)
  have d: "distinct (5 # [6 :: nat])" and e: "(5 :: nat) \<in> set (5 # [6])" by simp_all
  have cycle: "transcribed_pieces cyclic_transcript = 5 # [6]
     \<and> walk demo_session cyclic_transcript True 5 [6] \<and> distinct (5 # [6 :: nat])
     \<and> next_piece demo_session cyclic_transcript True (last (5 # [6])) = Inr (Some 5)
     \<and> 5 \<in> set (5 # [6 :: nat])"
    using a b c d e by (intro conjI)
  have f: "sort_pieces demo_session cyclic_transcript = Inl IndecipherableLinkageError"
    by (rule cycle_detected [of demo_session cyclic_transcript, THEN conjunct2, THEN conjunct1,
          rule_format, OF cycle])
  have round: "[5 :: nat] \<noteq> []
     \<and> walk demo_session cyclic_transcript True (if True then last [5] else hd [5]) [6]
     \<and> distinct [6 :: nat] \<and> set [6 :: nat] \<inter> set [5] = {}
     \<and> next_piece demo_session cyclic_transcript True
          (last ((if True then last [5] else hd [5]) # [6])) = Inr (Some 5)
     \<and> 5 \<in> set [5 :: nat] \<union> set [6]"
    using b c by simp
  have g: "extend_to_end demo_session cyclic_transcript True [5] = Inl IndecipherableLinkageError"
    by (rule cycle_detected [of demo_session cyclic_transcript, THEN conjunct1,
          rule_format, OF round])
  have h: "sort_pieces demo_session demo_transcript = Inr [2, 1]"
    by (simp add: link_defs demo_defs insert_commute)
  have "distinct [2 :: nat, 1] \<and> set [2 :: nat, 1] = set (transcribed_pieces demo_transcript)
      \<and> get_downstream_link demo_session demo_transcript (last [2, 1]) = Inr None
      \<and> get_upstream_link demo_session demo_transcript (hd [2, 1]) = Inr None"
    by (rule cycle_detected [of demo_session demo_transcript, THEN conjunct2, THEN conjunct2,
          THEN conjunct2, THEN conjunct2, THEN conjunct1, rule_format, OF h])
  then have i: "get_downstream_link demo_session demo_transcript 1 = Inr None
      \<and> get_upstream_link demo_session demo_transcript 2 = Inr None"
    by simp
  from a b c f g h i show ?thesis by (intro conjI) simp_all
qed

text \<open>
  The claim as written says that a cyclic link set never yields an ordering.  In the
  transcript below pair 1 leads from piece 11 to piece 12 and pair 2 from piece 12 back
  to piece 11.  Pair 2 has the position key of pair 3, which is listed before it, so
  link resolution returns pair 3 for piece 12 and the orderer returns all four pieces.
\<close>

theorem cycle_detected_counterexample:
  "pairs collapsing_transcript = [0, 1, 3, 2]
   \<and> upstream (pair_obj collapsing_session 1) = Some 110
   \<and> downstream (pair_obj collapsing_session 1) = Some 121
   \<and> upstream (pair_obj collapsing_session 2) = Some 120
   \<and> downstream (pair_obj collapsing_session 2) = Some 111
   \<and> f_transcribed_pieces (feature_obj collapsing_session 110) = [11]
   \<and> f_transcribed_pieces (feature_obj collapsing_session 121) = [12]
   \<and> f_transcribed_pieces (feature_obj collapsing_session 120) = [12]
   \<and> f_transcribed_pieces (feature_obj collapsing_session 111) = [11]
   \<and> sort_pieces collapsing_session collapsing_transcript = Inr [10, 11, 12, 13]"
  by (simp add: link_defs collapsing_defs insert_commute)

section \<open>Linking and de-linking a transcript and a piece\<close>

text \<open>
  C4 (a defect of \<^verbatim>\<open>TranscribedHandler.de_link\<close>).  The claim is that
  \<^verbatim>\<open>A.link_to(B)\<close> followed by \<^verbatim>\<open>A.de_link(B)\<close> restores the record of \<open>B\<close>.
  For a transcript handler \<open>a\<close> and a piece handler \<open>b\<close>, both bound, with the
  \<open>transcribed\<close> reference of the piece empty: \<open>link_to\<close> succeeds and sets that
  reference to the transcript.  \<open>de_link\<close> then takes the branch that removes the
  transcript from the collection \<open>transcribeds\<close> of the piece: it raises
  \<open>AttributeError\<close> when the piece has no such attribute, and if it returns at all,
  the \<open>transcribed\<close> reference still names the transcript.  The reference that
  \<open>link_to\<close> wrote is never cleared (\<open>de_link\<close> clears it for a pair handler only,
  while \<open>link_to\<close> sets it for a pair handler and a piece handler alike).
\<close>

theorem piece_link_not_reversed:
  assumes "kind (handlers w a) = TranscribedHandler"
    and "kind (handlers w b) = TranscribedPieceHandler"
    and "data (handlers w a) = Some ra" and "data (handlers w b) = Some rb"
    and "records w rb ''transcribed'' = Some (Ref None)"
  shows "\<exists>w1. link_to w a b = Inr w1
          \<and> records w1 rb ''transcribed'' = Some (Ref (Some ra))
          \<and> (records w rb ''transcribeds'' = None \<longrightarrow> de_link w1 a b = Inl AttributeError)
          \<and> (\<forall>w2. de_link w1 a b = Inr w2 \<longrightarrow> records w2 rb ''transcribed'' = Some (Ref (Some ra)))"
proof -
  let ?w1 = "w\<lparr>records := (records w)(rb := (records w rb)(''transcribed'' \<mapsto> Ref (Some ra)))\<rparr>"
  from assms have l: "link_to w a b = Inr ?w1"
    by (simp add: handler_defs)
  have k: "kind (handlers ?w1 a) = TranscribedHandler" "kind (handlers ?w1 b) = TranscribedPieceHandler"
    "data (handlers ?w1 a) = Some ra" "data (handlers ?w1 b) = Some rb"
    using assms by simp_all
  have d: "de_link ?w1 a b = remove_from ?w1 (Some rb) ''transcribeds'' (Some ra)"
    using k by (simp add: de_link_def isinstance_def isinstance_any_def)
  have "de_link ?w1 a b = Inl AttributeError" if "records w rb ''transcribeds'' = None"
    using that unfolding d by (simp add: remove_from_def)
  moreover have "records w2 rb ''transcribed'' = Some (Ref (Some ra))" if "de_link ?w1 a b = Inr w2" for w2
    using that unfolding d
    by (auto simp: remove_from_def assign_def split: option.splits val.splits if_splits)
  ultimately show ?thesis using l by simp
qed

theorem piece_link_not_reversed_witness:
  "kind (handlers demo_world 0) = TranscribedHandler
   \<and> kind (handlers demo_world 1) = TranscribedPieceHandler
   \<and> data (handlers demo_world 0) = Some 0 \<and> data (handlers demo_world 1) = Some 1
   \<and> records demo_world 1 ''transcribed'' = Some (Ref None)
   \<and> records demo_world 1 ''transcribeds'' = None
   \<and> link_to demo_world 0 1
       = Inr (demo_world\<lparr>records := (records demo_world)
                (1 := (records demo_world 1)(''transcribed'' \<mapsto> Ref (Some 0)))\<rparr>)
   \<and> de_link (demo_world\<lparr>records := (records demo_world)
                (1 := (records demo_world 1)(''transcribed'' \<mapsto> Ref (Some 0)))\<rparr>) 0 1
       = Inl AttributeError"
proof -
  have h: "kind (handlers demo_world 0) = TranscribedHandler"
    "kind (handlers demo_world 1) = TranscribedPieceHandler"
    "data (handlers demo_world 0) = Some 0" "data (handlers demo_world 1) = Some 1"
    "records demo_world 1 ''transcribed'' = Some (Ref None)"
    and n: "records demo_world 1 ''transcribeds'' = None"
    by (simp_all add: world_defs)
  have l: "link_to demo_world 0 1
       = Inr (demo_world\<lparr>records := (records demo_world)
                (1 := (records demo_world 1)(''transcribed'' \<mapsto> Ref (Some 0)))\<rparr>)"
    using h by (simp add: handler_defs)
  from piece_link_not_reversed [OF h] l n h show ?thesis by auto
qed

section \<open>Copying attributes\<close>




section \<open>Binding a record to a handler\<close>

text \<open>
  C6 (amended).  \<open>add_data\<close> fails exactly when the class of the record is not
  the declared data type of the handler (or a subclass of it).  It does not look at
  the record the handler holds already: with a record of the right class it succeeds,
  binds the handler to the new record and makes the record point back to the handler;
  so after one successful \<open>add_data\<close> a second one with another record of the right
  class succeeds as well and rebinds the handler.
\<close>

theorem add_data_rebinds:
  "(\<not> isinstance_data (class_of w d) (data_type (kind (handlers w self)))
      \<longrightarrow> add_data w self d = Inl AssertionError)
   \<and> (isinstance_data (class_of w d) (data_type (kind (handlers w self)))
      \<longrightarrow> (\<exists>w'. add_data w self d = Inr w'
              \<and> data (handlers w' self) = Some d
              \<and> records w' d ''handler'' = Some (HandlerRef self)
              \<and> kind (handlers w' self) = kind (handlers w self)
              \<and> class_of w' = class_of w))
   \<and> (\<forall>w1 d2. add_data w self d = Inr w1
         \<and> isinstance_data (class_of w d2) (data_type (kind (handlers w self)))
      \<longrightarrow> (\<exists>w2. add_data w1 self d2 = Inr w2 \<and> data (handlers w1 self) = Some d
               \<and> data (handlers w2 self) = Some d2))"
  by (auto simp: add_data_def split: if_splits)

theorem add_data_rebinds_witness:
  "\<not> isinstance_data (class_of demo_world 1) (data_type (kind (handlers demo_world 0)))
   \<and> add_data demo_world 0 1 = Inl AssertionError
   \<and> isinstance_data (class_of demo_world 2) (data_type (kind (handlers demo_world 0)))"
proof -
  have a: "\<not> isinstance_data (class_of demo_world 1) (data_type (kind (handlers demo_world 0)))"
    and b: "isinstance_data (class_of demo_world 2) (data_type (kind (handlers demo_world 0)))"
    by (simp_all add: isinstance_data_def world_defs)
  from add_data_rebinds [of demo_world 1 0] a b show ?thesis by blast
qed

text \<open>
  The claim as written expects \<open>add_data\<close> to fail on a handler that holds a record.
  Handler 0 holds record 0; \<open>add_data\<close> with record 2 succeeds and binds it to
  record 2.
\<close>

theorem add_data_rebinds_counterexample:
  "data (handlers demo_world 0) = Some 0
   \<and> add_data demo_world 0 2
     = Inr (demo_world\<lparr>handlers := (handlers demo_world)(0 := (handlers demo_world 0)\<lparr>data := Some 2\<rparr>),
              records := (records demo_world)(2 := (records demo_world 2)(''handler'' \<mapsto> HandlerRef 0))\<rparr>)"
  by (simp add: add_data_def isinstance_data_def world_defs)

end
